theory Spec2Isabelle
  imports Complex_Main "HOL-Library.Word"
begin

unbundle bit_operations_syntax

section \<open>Go runtime conventions\<close>

text \<open>
  A Go panic is a value of the model: every function that can panic returns
  \<open>panic + 'a\<close>, with \<open>Inl\<close> carrying the panic.
\<close>

datatype panic = IndexOutOfRange | DivideByZero | NilDereference | MakeLenOutOfRange

text \<open>Go's integer division truncates towards zero; \<open>%\<close> is the matching remainder.\<close>

definition go_quot :: "int \<Rightarrow> int \<Rightarrow> int" where
  "go_quot a b = sgn a * sgn b * (\<bar>a\<bar> div \<bar>b\<bar>)"

definition go_rem :: "int \<Rightarrow> int \<Rightarrow> int" where
  "go_rem a b = a - b * go_quot a b"

section \<open>CircularBuffer (logging.go)\<close>

text \<open>
  The buffer holds pointers to log entries; \<open>None\<close> is the nil pointer that
  \<open>make\<close> fills the slice with.
\<close>

record 'a CircularBuffer =
  cb_buffer :: "'a option list"
  cb_capacity :: int
  cb_head :: int
  cb_size :: int

definition NewCircularBuffer :: "int \<Rightarrow> panic + 'a CircularBuffer" where
  "NewCircularBuffer c =
     (if c < 0 then Inl MakeLenOutOfRange
      else Inr \<lparr>cb_buffer = replicate (nat c) None, cb_capacity = c, cb_head = 0, cb_size = 0\<rparr>)"

definition Add :: "'a CircularBuffer \<Rightarrow> 'a option \<Rightarrow> panic + 'a CircularBuffer" where
  "Add cb entry =
     (if cb_head cb < 0 \<or> int (length (cb_buffer cb)) \<le> cb_head cb then Inl IndexOutOfRange
      else if cb_capacity cb = 0 then Inl DivideByZero
      else Inr (cb\<lparr>cb_buffer := (cb_buffer cb)[nat (cb_head cb) := entry],
                   cb_head := go_rem (cb_head cb + 1) (cb_capacity cb),
                   cb_size := (if cb_size cb < cb_capacity cb then cb_size cb + 1 else cb_size cb)\<rparr>))"

text \<open>The copy loop of \<open>GetAll\<close>, over the indices \<open>i = 0 .. size - 1\<close>.\<close>

fun GetAll_loop :: "'a CircularBuffer \<Rightarrow> int \<Rightarrow> nat list \<Rightarrow> panic + 'a option list" where
  "GetAll_loop cb start [] = Inr []"
| "GetAll_loop cb start (i # js) =
     (if cb_capacity cb = 0 then Inl DivideByZero
      else let idx = go_rem (start + int i) (cb_capacity cb) in
        if idx < 0 \<or> int (length (cb_buffer cb)) \<le> idx then Inl IndexOutOfRange
        else (case GetAll_loop cb start js of
                Inl e \<Rightarrow> Inl e
              | Inr r \<Rightarrow> Inr (cb_buffer cb ! nat idx # r)))"

definition GetAll :: "'a CircularBuffer \<Rightarrow> panic + 'a option list" where
  "GetAll cb =
     (let sz = cb_size cb; h = cb_head cb in
      if sz = 0 then Inr []
      else if sz < 0 then Inl MakeLenOutOfRange
      else let start = h - sz;
               start = (if start < 0 then start + cb_capacity cb else start)
           in GetAll_loop cb start [0 ..< nat sz])"

text \<open>A run of \<open>Add\<close> calls, in order; the first panic ends it.\<close>

fun AddAll :: "'a CircularBuffer \<Rightarrow> 'a option list \<Rightarrow> panic + 'a CircularBuffer" where
  "AddAll cb [] = Inr cb"
| "AddAll cb (x # xs) = (case Add cb x of Inl e \<Rightarrow> Inl e | Inr cb' \<Rightarrow> AddAll cb' xs)"

definition ring_after :: "int \<Rightarrow> 'a option list \<Rightarrow> panic + 'a option list" where
  "ring_after n xs =
     (case NewCircularBuffer n of
        Inl e \<Rightarrow> Inl e
      | Inr cb \<Rightarrow> (case AddAll cb xs of Inl e \<Rightarrow> Inl e | Inr cb' \<Rightarrow> GetAll cb'))"

text \<open>
  The state of a buffer of capacity \<open>n\<close> after the entries \<open>xs\<close> were added to a new
  one: slot \<open>i mod n\<close> holds entry \<open>i\<close> for the last \<open>n\<close> indices \<open>i\<close>.
\<close>

definition ring_inv :: "int \<Rightarrow> 'a option list \<Rightarrow> 'a CircularBuffer \<Rightarrow> bool" where
  "ring_inv n xs cb \<longleftrightarrow>
     cb_capacity cb = n \<and> length (cb_buffer cb) = nat n \<and>
     cb_head cb = int (length xs) mod n \<and>
     cb_size cb = min (int (length xs)) n \<and>
     (\<forall>i. length xs - nat n \<le> i \<and> i < length xs \<longrightarrow> cb_buffer cb ! (i mod nat n) = xs ! i)"

section \<open>Token bucket rate limiter\<close>

text \<open>
  A \<open>float64\<close> is modelled by the rational number it denotes. Each floating-point
  operation of the source is the exact operation followed by the rounding \<open>fl\<close> of
  the machine, which the definitions take as a parameter. The properties below are
  proved for every rounding that is monotone and leaves the integers of magnitude up
  to \<open>2^53\<close> unchanged, as rounding to nearest does; infinities and NaN do not arise
  from the finite values handled here.
\<close>

type_synonym float64 = rat

definition float_rounding :: "(float64 \<Rightarrow> float64) \<Rightarrow> bool" where
  "float_rounding fl \<longleftrightarrow>
     (\<forall>x y. x \<le> y \<longrightarrow> fl x \<le> fl y) \<and>
     (\<forall>k::int. \<bar>k\<bar> \<le> 2 ^ 53 \<longrightarrow> fl (of_int k) = of_int k)"

text \<open>Conversion of a float to an unsigned integer drops the fraction.\<close>

definition float_trunc :: "float64 \<Rightarrow> int" where
  "float_trunc x = (if 0 \<le> x then \<lfloor>x\<rfloor> else \<lceil>x\<rceil>)"

definition tokenMultiplier :: float64 where
  "tokenMultiplier = 1000"

text \<open>
  The packed state: upper 32 bits the tokens in thousandths, lower 32 bits the time
  stamp. \<open>tnow\<close> is the \<open>int64\<close> value of \<open>time.Now().Unix()\<close>, as its 64 bits.
\<close>

definition newAtomicTokenBucket :: "(float64 \<Rightarrow> float64) \<Rightarrow> float64 \<Rightarrow> 64 word \<Rightarrow> 64 word" where
  "newAtomicTokenBucket fl capacity tnow =
     (let initialTokens = (word_of_int (float_trunc (fl (capacity * tokenMultiplier))) :: 32 word);
          initialTime = (ucast tnow :: 32 word)
      in push_bit 32 (ucast initialTokens) OR ucast initialTime)"

text \<open>The tokens after the refill, capped at the capacity.\<close>

definition refill :: "(float64 \<Rightarrow> float64) \<Rightarrow> float64 \<Rightarrow> float64 \<Rightarrow> 64 word \<Rightarrow> 64 word \<Rightarrow> float64" where
  "refill fl rate capacity now oldState =
     (let oldTokens = fl (fl (of_int (uint (drop_bit 32 oldState))) / tokenMultiplier);
          oldTime = oldState AND 0xFFFFFFFF;
          elapsed = fl (of_int (sint (now - oldTime)));
          newTokens = fl (oldTokens + fl (elapsed * rate))
      in if newTokens > capacity then capacity else newTokens)"

text \<open>
  One call of \<open>allow\<close> with no other goroutine touching the bucket, so that the
  compare-and-swap succeeds in the first round of the loop. The result is the
  answer and the new packed state.
\<close>

definition allow :: "(float64 \<Rightarrow> float64) \<Rightarrow> float64 \<Rightarrow> float64 \<Rightarrow> 64 word \<Rightarrow> 64 word \<Rightarrow> bool \<times> 64 word" where
  "allow fl rate capacity now oldState =
     (let newTokens = refill fl rate capacity now oldState
      in if newTokens < 1 then (False, oldState)
         else let newTokens = fl (newTokens - 1);
                  newState = push_bit 32 (word_of_int (float_trunc (fl (newTokens * tokenMultiplier))))
                             OR now
              in (True, newState))"

text \<open>The token count of a state, as \<open>allow\<close> reads it.\<close>

definition tokens_of :: "(float64 \<Rightarrow> float64) \<Rightarrow> 64 word \<Rightarrow> float64" where
  "tokens_of fl s = fl (fl (of_int (uint (drop_bit 32 s))) / tokenMultiplier)"

record RateLimiter =
  rl_visitors :: "string \<rightharpoonup> 64 word"
  rl_rate :: float64
  rl_capacity :: float64

definition NewRateLimiter :: "(float64 \<Rightarrow> float64) \<Rightarrow> float64 \<Rightarrow> RateLimiter" where
  "NewRateLimiter fl requestsPerMinute =
     \<lparr>rl_visitors = Map.empty, rl_rate = fl (requestsPerMinute / 60), rl_capacity = requestsPerMinute\<rparr>"

text \<open>
  \<open>Allow\<close> reads the clock twice: \<open>tc\<close> when it builds the bucket offered to
  \<open>LoadOrStore\<close>, \<open>now\<close> inside \<open>allow\<close>.
\<close>

definition Allow :: "(float64 \<Rightarrow> float64) \<Rightarrow> RateLimiter \<Rightarrow> string \<Rightarrow> 64 word \<Rightarrow> 64 word \<Rightarrow> bool \<times> RateLimiter" where
  "Allow fl rl ip tc now =
     (let fresh = newAtomicTokenBucket fl (rl_capacity rl) tc;
          bucket = (case rl_visitors rl ip of None \<Rightarrow> fresh | Some b \<Rightarrow> b);
          (ok, bucket') = allow fl (rl_rate rl) (rl_capacity rl) now bucket
      in (ok, rl\<lparr>rl_visitors := (rl_visitors rl)(ip \<mapsto> bucket')\<rparr>))"

text \<open>A sequence of \<open>Allow\<close> calls for one key, each with its two clock readings.\<close>

fun Allow_seq :: "(float64 \<Rightarrow> float64) \<Rightarrow> RateLimiter \<Rightarrow> string \<Rightarrow> (64 word \<times> 64 word) list \<Rightarrow> bool list \<times> RateLimiter" where
  "Allow_seq fl rl ip [] = ([], rl)"
| "Allow_seq fl rl ip ((tc, now) # ts) =
     (let (ok, rl') = Allow fl rl ip tc now;
          (oks, rl'') = Allow_seq fl rl' ip ts
      in (ok # oks, rl''))"

text \<open>The bucket that \<open>LoadOrStore\<close> hands to \<open>Allow\<close>: the stored one, or the fresh one.\<close>

definition current_bucket :: "(float64 \<Rightarrow> float64) \<Rightarrow> RateLimiter \<Rightarrow> string \<Rightarrow> 64 word \<Rightarrow> 64 word" where
  "current_bucket fl rl ip tc =
     (case rl_visitors rl ip of None \<Rightarrow> newAtomicTokenBucket fl (rl_capacity rl) tc | Some b \<Rightarrow> b)"

text \<open>
  Invariant of a bucket of capacity \<open>n\<close>: the token field holds at most \<open>n\<close> tokens.
  \<open>limiter_ok\<close> lifts it to the bucket of one key.
\<close>

definition bucket_ok :: "nat \<Rightarrow> 64 word \<Rightarrow> bool" where
  "bucket_ok n s \<longleftrightarrow> uint (drop_bit 32 s) \<le> int n * 1000"

definition limiter_ok :: "nat \<Rightarrow> RateLimiter \<Rightarrow> string \<Rightarrow> bool" where
  "limiter_ok n rl ip \<longleftrightarrow>
     rl_capacity rl = of_nat n \<and> (\<forall>s. rl_visitors rl ip = Some s \<longrightarrow> bucket_ok n s)"

text \<open>The state of a bucket of capacity \<open>n\<close> after \<open>k\<close> tokens were taken at time \<open>t\<close>.\<close>

definition burst_state :: "nat \<Rightarrow> nat \<Rightarrow> 64 word \<Rightarrow> 64 word" where
  "burst_state n k t = push_bit 32 (word_of_int ((int n - int k) * 1000)) OR t"

section \<open>Virtual network (SFUNet)\<close>

text \<open>
  A packet carries a four-byte address and its payload. The table \<open>connections\<close> has
  256 slots, one for each value of the first address byte; an empty slot is the nil
  writer. A writer is any \<open>io.Writer\<close>: its \<open>Write\<close> is the parameter \<open>wr\<close>, which takes
  the writer's state and the payload to the new state, the byte count and whether the
  error is non-nil. Go's \<open>int\<close> is taken without a bound. The arguments \<open>fd\<close> and
  \<open>flags\<close> are not read by the source and are left out.
\<close>

type_synonym bytes = "8 word list"

record Addr =
  IP :: "8 word \<times> 8 word \<times> 8 word \<times> 8 word"
  Port :: int

record Packet =
  Addr :: Addr
  Data :: bytes

type_synonym 'w writer = "'w \<Rightarrow> bytes \<Rightarrow> 'w \<times> int \<times> bool"
type_synonym 'w connections = "8 word \<Rightarrow> 'w option"

definition SendTo :: "'w writer \<Rightarrow> 'w connections \<Rightarrow> Packet \<Rightarrow> int \<times> 'w connections" where
  "SendTo wr connections packet =
     (let i = fst (IP (Addr packet)) in
      case connections i of
        None \<Rightarrow> (- 1, connections)
      | Some conn \<Rightarrow>
          (let (conn', nn, err) = wr conn (Data packet)
           in (if err then - 1 else nn, connections(i := Some conn'))))"

fun SendToBatch_loop :: "'w writer \<Rightarrow> 'w connections \<Rightarrow> Packet list \<Rightarrow> int \<Rightarrow> int \<times> 'w connections" where
  "SendToBatch_loop wr connections [] sum_n = (sum_n, connections)"
| "SendToBatch_loop wr connections (packet # packets) sum_n =
     (let (nn, connections') = SendTo wr connections packet
      in if nn = - 1 then (- 1, connections')
         else SendToBatch_loop wr connections' packets (sum_n + nn))"

definition SendToBatch :: "'w writer \<Rightarrow> 'w connections \<Rightarrow> Packet list \<Rightarrow> int \<times> 'w connections" where
  "SendToBatch wr connections packets = SendToBatch_loop wr connections packets 0"

text \<open>
  For comparison: \<open>SendTo\<close> applied to every packet of a list in order, whatever the
  results. It gives the results and the table after all of them.
\<close>

fun send_each :: "'w writer \<Rightarrow> 'w connections \<Rightarrow> Packet list \<Rightarrow> int list \<times> 'w connections" where
  "send_each wr connections [] = ([], connections)"
| "send_each wr connections (packet # packets) =
     (let (nn, connections') = SendTo wr connections packet;
          (nns, connections'') = send_each wr connections' packets
      in (nn # nns, connections''))"

text \<open>A writer for examples: it records each payload and fails on an empty one.\<close>

definition log_writer :: "bytes list writer" where
  "log_writer w d = (if d = [] then (w, 0, True) else (w @ [d], int (length d), False))"

text \<open>A packet for the slot \<open>i\<close>.\<close>

definition pk :: "8 word \<Rightarrow> bytes \<Rightarrow> Packet" where
  "pk i d = \<lparr>Addr = \<lparr>IP = (i, 0, 0, 0), Port = 1000\<rparr>, Data = d\<rparr>"

section \<open>Remote console handler (handlers.go)\<close>

text \<open>
  The value that \<open>encoding/json\<close> stores in a field of type \<open>interface{}\<close>: \<open>JNil\<close> when
  the field is absent or null, otherwise the decoded JSON value.
\<close>

datatype json_value =
    JNil
  | JBool bool
  | JNumber float64
  | JString string
  | JArray "json_value list"
  | JObject "(string \<times> json_value) list"

text \<open>The outcome of decoding the request body into \<open>requestBody\<close>: an error, or its \<open>Command\<close>.\<close>

datatype decoded = DecodeError | Decoded json_value

text \<open>
  \<open>C.CString\<close> copies the bytes of a Go string and ends them with a NUL byte; a C
  function that takes the \<open>const char*\<close> reads the text up to the first NUL byte, which
  can lie inside the Go string.
\<close>

definition CString :: "string \<Rightarrow> string" where
  "CString s = takeWhile (\<lambda>c. c \<noteq> CHR 0x00) s"

text \<open>
  What \<open>ExecuteCommand\<close> acts on: the commands it logs (\<open>Executing RCON command\<close>), and
  the engine's command buffer as the texts that \<open>Cbuf_AddText\<close> has read.
\<close>

record engine =
  executing :: "string list"
  cbuf :: "string list"

definition ExecuteCommand :: "engine \<Rightarrow> string \<Rightarrow> engine" where
  "ExecuteCommand e command =
     (let commandWithNewline = command @ [CHR 0x0A]
      in \<lparr>executing = executing e @ [command], cbuf = cbuf e @ [CString commandWithNewline]\<rparr>)"

text \<open>The loop over a command array.\<close>

fun rcon_array :: "engine \<Rightarrow> json_value list \<Rightarrow> engine" where
  "rcon_array e [] = e"
| "rcon_array e (JString str # cs) =
     (if str \<noteq> [] then rcon_array (ExecuteCommand e str) cs else rcon_array e cs)"
| "rcon_array e (c # cs) = rcon_array e cs"

text \<open>The handler gives the status code it writes and the engine afterwards.\<close>

definition rconHandler :: "string \<Rightarrow> decoded \<Rightarrow> engine \<Rightarrow> nat \<times> engine" where
  "rconHandler method body e =
     (if method \<noteq> ''POST'' then (405, e)
      else case body of
        DecodeError \<Rightarrow> (400, e)
      | Decoded command \<Rightarrow>
          (case command of
             JNil \<Rightarrow> (400, e)
           | JString cmd \<Rightarrow> if cmd = [] then (400, e) else (204, ExecuteCommand e cmd)
           | JArray cmd \<Rightarrow> if cmd = [] then (400, e) else (204, rcon_array e cmd)
           | _ \<Rightarrow> (400, e)))"

text \<open>The non-empty strings among the elements of an array, in order.\<close>

fun nonempty_strings :: "json_value list \<Rightarrow> string list" where
  "nonempty_strings [] = []"
| "nonempty_strings (JString s # cs) = (if s = [] then nonempty_strings cs else s # nonempty_strings cs)"
| "nonempty_strings (c # cs) = nonempty_strings cs"

section \<open>Operator credentials and the HTTP front (handlers.go, auth.go, sfu.go)\<close>

text \<open>
  Go strings whose bytes are compared are byte lists. \<open>bytes_of\<close> gives the bytes of
  an ASCII literal.
\<close>

definition bytes_of :: "string \<Rightarrow> bytes" where
  "bytes_of s = map of_char s"

record ServerState =
  adminPassword :: bytes
  adminUsername :: bytes
  passwordSalt :: bytes
  loginRateLimiter :: "RateLimiter option"
  rconRateLimiter :: "RateLimiter option"

subsection \<open>checkCredentials\<close>

text \<open>
  \<open>crypto/subtle.ConstantTimeCompare\<close> returns 0 at once when the lengths differ and
  otherwise folds the XOR of every byte pair into one byte, answering 1 when that byte
  is 0. The model also counts the byte pairs the loop combines.
\<close>

fun ct_loop :: "bytes \<Rightarrow> bytes \<Rightarrow> 8 word \<Rightarrow> nat \<Rightarrow> 8 word \<times> nat" where
  "ct_loop (x # xs) (y # ys) v k = ct_loop xs ys (v OR (x XOR y)) (Suc k)"
| "ct_loop xs ys v k = (v, k)"

definition ConstantTimeCompare :: "bytes \<Rightarrow> bytes \<Rightarrow> int \<times> nat" where
  "ConstantTimeCompare x y =
     (if length x \<noteq> length y then (0, 0)
      else let (v, k) = ct_loop x y 0 0 in (if v = 0 then 1 else 0, k))"

text \<open>
  What an execution of \<open>checkCredentials\<close> does, in order: each comparison with the
  lengths of its two arguments and the byte pairs it combined, each hash with the
  length of its input. The hash itself (SHA-512, then hexadecimal) is the parameter
  \<open>sha512hex\<close>.
\<close>

datatype event = Compared nat nat nat | Hashed nat

definition computePasswordHash :: "(bytes \<Rightarrow> bytes) \<Rightarrow> bytes \<Rightarrow> bytes \<Rightarrow> bytes \<times> event list" where
  "computePasswordHash sha512hex password salt =
     (sha512hex (password @ salt), [Hashed (length (password @ salt))])"

definition checkCredentials :: "(bytes \<Rightarrow> bytes) \<Rightarrow> ServerState \<Rightarrow> bytes \<Rightarrow> bytes \<Rightarrow> bool \<times> event list" where
  "checkCredentials sha512hex st username passwordHash =
     (let (r1, k1) = ConstantTimeCompare username (adminUsername st);
          usernameMatch = (r1 = 1);
          (expectedHash, hashed) = computePasswordHash sha512hex (adminPassword st) (passwordSalt st);
          (r2, k2) = ConstantTimeCompare passwordHash expectedHash;
          hashMatch = (r2 = 1)
      in (usernameMatch \<and> hashMatch,
          [Compared (length username) (length (adminUsername st)) k1] @ hashed @
          [Compared (length passwordHash) (length expectedHash) k2]))"

subsection \<open>Start-up\<close>

text \<open>
  The part of \<open>init\<close> that reads the operator credentials from \<open>ADMIN_PANEL_USER\<close> and
  \<open>ADMIN_PANEL_PASSWORD\<close>. The random salt is a parameter. The rate limiters are
  created only when a password is set; otherwise both pointers stay nil.
\<close>

definition init_admin :: "(float64 \<Rightarrow> float64) \<Rightarrow> bytes \<Rightarrow> bytes \<Rightarrow> bytes \<Rightarrow> ServerState" where
  "init_admin fl env_user env_password salt =
     (let user = (if env_user = [] then bytes_of ''admin'' else env_user) in
      if env_password = []
      then \<lparr>adminPassword = env_password, adminUsername = user, passwordSalt = [],
             loginRateLimiter = None, rconRateLimiter = None\<rparr>
      else \<lparr>adminPassword = env_password, adminUsername = user, passwordSalt = salt,
             loginRateLimiter = Some (NewRateLimiter fl 5),
             rconRateLimiter = Some (NewRateLimiter fl 30)\<rparr>)"

subsection \<open>Requests, middleware and routing\<close>

text \<open>
  A request with what the router and the limiter read of it. \<open>RemoteHost\<close> is the host
  part of \<open>RemoteAddr\<close> when \<open>SplitHostPort\<close> accepts it.
\<close>

record Request =
  URL_Path :: string
  Method :: string
  X_Forwarded_For :: string
  X_Real_IP :: string
  RemoteAddr :: string
  RemoteHost :: "string option"

text \<open>
  What a request ends in: a status code written, a panic (which \<open>net/http\<close> recovers
  by dropping the connection, with no response), or a handler that passed its guards
  and goes on with work that is not modelled here.
\<close>

datatype outcome = Status nat | Panicked panic | Proceeds string

definition extractFirstIP :: "string \<Rightarrow> string" where
  "extractFirstIP ips = takeWhile (\<lambda>c. c \<noteq> CHR '','') ips"

definition getClientIP :: "Request \<Rightarrow> string" where
  "getClientIP r =
     (if X_Forwarded_For r \<noteq> [] \<and> extractFirstIP (X_Forwarded_For r) \<noteq> []
      then extractFirstIP (X_Forwarded_For r)
      else if X_Real_IP r \<noteq> [] then X_Real_IP r
      else case RemoteHost r of None \<Rightarrow> RemoteAddr r | Some ip \<Rightarrow> ip)"

text \<open>
  \<open>RateLimiter.Middleware\<close> on a receiver that may be nil. Building the closure does
  not touch the receiver; running it calls \<open>Allow\<close>, which reads the receiver's fields.
\<close>

definition Middleware ::
  "(float64 \<Rightarrow> float64) \<Rightarrow> RateLimiter option \<Rightarrow> (Request \<Rightarrow> outcome) \<Rightarrow> Request \<Rightarrow>
   64 word \<Rightarrow> 64 word \<Rightarrow> outcome \<times> RateLimiter option" where
  "Middleware fl rl next r tc now =
     (let ip = getClientIP r in
      case rl of
        None \<Rightarrow> (Panicked NilDereference, None)
      | Some l \<Rightarrow>
          (let (ok, l') = Allow fl l ip tc now
           in if \<not> ok then (Status 429, Some l') else (next r, Some l')))"

definition admin_disabled :: "ServerState \<Rightarrow> bool" where
  "admin_disabled st \<longleftrightarrow> adminPassword st = [] \<or> adminUsername st = []"

definition loginHandler :: "ServerState \<Rightarrow> Request \<Rightarrow> outcome" where
  "loginHandler st r =
     (if admin_disabled st then Status 503
      else if Method r \<noteq> ''POST'' then Status 405
      else Proceeds ''loginHandler'')"

definition saltHandler :: "ServerState \<Rightarrow> Request \<Rightarrow> outcome" where
  "saltHandler st r =
     (if admin_disabled st then Status 503
      else if Method r \<noteq> ''GET'' then Status 405
      else Status 200)"

definition authMiddleware :: "ServerState \<Rightarrow> string \<Rightarrow> Request \<Rightarrow> outcome" where
  "authMiddleware st next r =
     (if admin_disabled st then Status 503
      else Proceeds (''authMiddleware, '' @ next))"

definition adminHandler :: "ServerState \<Rightarrow> Request \<Rightarrow> outcome" where
  "adminHandler st r = (if admin_disabled st then Status 503 else Proceeds ''adminHandler'')"

definition logsWebSocketHandler :: "ServerState \<Rightarrow> Request \<Rightarrow> outcome" where
  "logsWebSocketHandler st r =
     (if admin_disabled st then Status 503 else Proceeds ''logsWebSocketHandler'')"

definition ServeHTTP ::
  "(float64 \<Rightarrow> float64) \<Rightarrow> ServerState \<Rightarrow> Request \<Rightarrow> 64 word \<Rightarrow> 64 word \<Rightarrow> outcome \<times> ServerState" where
  "ServeHTTP fl st r tc now =
     (if URL_Path r = ''/websocket'' then (Proceeds ''websocketHandler'', st)
      else if URL_Path r = ''/v1/auth'' then
        (if Method r = ''GET'' then (saltHandler st r, st)
         else if Method r = ''POST'' then
           (let (out, rl) = Middleware fl (loginRateLimiter st) (loginHandler st) r tc now
            in (out, st\<lparr>loginRateLimiter := rl\<rparr>))
         else (Status 405, st))
      else if URL_Path r = ''/v1/config'' then (Status 200, st)
      else if URL_Path r = ''/v1/rcon'' then
        (let (out, rl) = Middleware fl (rconRateLimiter st) (authMiddleware st ''rconHandler'') r tc now
         in (out, st\<lparr>rconRateLimiter := rl\<rparr>))
      else if URL_Path r = ''/websocket/logs'' then (logsWebSocketHandler st r, st)
      else if URL_Path r = ''/admin'' \<or> URL_Path r = ''/admin/'' then (adminHandler st r, st)
      else (Proceeds ''static file'', st))"

text \<open>A configured state for examples; the hash is taken as the identity there.\<close>

definition example_state :: ServerState where
  "example_state = \<lparr>adminPassword = [3], adminUsername = [1, 2], passwordSalt = [4],
     loginRateLimiter = None, rconRateLimiter = None\<rparr>"

definition admin_request :: Request where
  "admin_request = \<lparr>URL_Path = ''/admin'', Method = ''GET'', X_Forwarded_For = [], X_Real_IP = [],
     RemoteAddr = ''10.0.0.7:5050'', RemoteHost = Some ''10.0.0.7''\<rparr>"

section \<open>Signaling handler and address pool (config.go)\<close>

text \<open>
  Modelled from the spec: the address pool \<open>goxash3d_fwgs.BytesPool\<close> comes from another
  module and is not among the sources. The spec gives a fixed-capacity set of
  available one-byte indices, \<open>acquire() -> (index, ok)\<close> that fails with \<open>ok = false\<close>
  when the set is exhausted, and \<open>release(index)\<close>. The pool is a queue of the indices
  available; the byte that comes with a failed acquire is not given by the spec and
  is the parameter \<open>none_index\<close>.
\<close>

record BytesPool =
  available :: "8 word list"
  pool_size :: nat

definition NewBytesPool :: "nat \<Rightarrow> BytesPool" where
  "NewBytesPool n = \<lparr>available = map of_nat [0 ..< n], pool_size = n\<rparr>"

definition TryGet :: "8 word \<Rightarrow> BytesPool \<Rightarrow> (8 word \<times> bool) \<times> BytesPool" where
  "TryGet none_index p =
     (case available p of
        [] \<Rightarrow> ((none_index, False), p)
      | i # rest \<Rightarrow> ((i, True), p\<lparr>available := rest\<rparr>))"

definition TryPut :: "8 word \<Rightarrow> BytesPool \<Rightarrow> BytesPool" where
  "TryPut i p = (if length (available p) < pool_size p then p\<lparr>available := available p @ [i]\<rparr> else p)"

text \<open>
  \<open>websocketHandler\<close> runs in two parts: from the upgrade until it enters its message
  loop, and the deferred calls when it returns. What the libraries answer is the
  environment \<open>ws_env\<close>; \<open>rand_ip\<close> holds the four random address bytes. The test of
  \<open>err\<close> that precedes the address is dead, \<open>err\<close> being nil there, and the flag that
  \<open>TryGet\<close> returns is discarded by the source.
\<close>

type_synonym ip4 = "8 word \<times> 8 word \<times> 8 word \<times> 8 word"

record ws_env =
  upgrade_ok :: bool
  peer_connection_ok :: bool
  transceiver_ok :: bool
  write_channel_ok :: bool
  rand_ip :: ip4

text \<open>The deferred calls of the handler, and the events a run performs.\<close>

datatype deferred =
    DeferCloseWebsocket
  | DeferClosePeerConnection
  | DeferTryPut "8 word"
  | DeferCloseReadChannel
  | DeferCloseWriteChannel

datatype ws_event =
    CloseWebsocket
  | ClosePeerConnection
  | PoolTryPut "8 word"
  | CloseReadChannel
  | CloseWriteChannel

text \<open>
  Deferred calls run last registered first; the list holds them in that order. The
  deferred closure for the read channel closes it only when the \<open>OnOpen\<close> callback
  has created one by then.
\<close>

fun run_deferred :: "bool \<Rightarrow> deferred list \<Rightarrow> BytesPool \<Rightarrow> ws_event list \<times> BytesPool" where
  "run_deferred rc [] p = ([], p)"
| "run_deferred rc (DeferCloseWebsocket # ds) p =
     (let (evs, p') = run_deferred rc ds p in (CloseWebsocket # evs, p'))"
| "run_deferred rc (DeferClosePeerConnection # ds) p =
     (let (evs, p') = run_deferred rc ds p in (ClosePeerConnection # evs, p'))"
| "run_deferred rc (DeferTryPut i # ds) p =
     (let (evs, p') = run_deferred rc ds (TryPut i p) in (PoolTryPut i # evs, p'))"
| "run_deferred rc (DeferCloseReadChannel # ds) p =
     (let (evs, p') = run_deferred rc ds p in ((if rc then [CloseReadChannel] else []) @ evs, p'))"
| "run_deferred rc (DeferCloseWriteChannel # ds) p =
     (let (evs, p') = run_deferred rc ds p in (CloseWriteChannel # evs, p'))"

record session =
  sess_ip :: ip4
  sess_deferred :: "deferred list"

record sfu_state =
  pool :: BytesPool
  peers :: "session list"

text \<open>
  The handler up to its message loop. It gives the session when the connection is
  admitted (appended to \<open>peerConnections\<close>), the events of the deferred calls when
  it returns early, and the new state.
\<close>

definition websocket_open :: "8 word \<Rightarrow> ws_env \<Rightarrow> sfu_state \<Rightarrow> session option \<times> ws_event list \<times> sfu_state" where
  "websocket_open none_index env st =
     (if \<not> upgrade_ok env then (None, [], st)
      else let ds1 = [DeferCloseWebsocket] in
      if \<not> peer_connection_ok env then
        (let (evs, p) = run_deferred False ds1 (pool st) in (None, evs, st\<lparr>pool := p\<rparr>))
      else let ds2 = DeferClosePeerConnection # ds1 in
      if \<not> transceiver_ok env then
        (let (evs, p) = run_deferred False ds2 (pool st) in (None, evs, st\<lparr>pool := p\<rparr>))
      else let ((index, _), p1) = TryGet none_index (pool st);
               (_, b, c, d) = rand_ip env;
               ip = (index, b, c, d);
               ds3 = DeferTryPut index # ds2 in
      if \<not> write_channel_ok env then
        (let (evs, p) = run_deferred False ds3 p1 in (None, evs, st\<lparr>pool := p\<rparr>))
      else let ds5 = DeferCloseWriteChannel # DeferCloseReadChannel # ds3;
               s = \<lparr>sess_ip = ip, sess_deferred = ds5\<rparr>
           in (Some s, [], st\<lparr>pool := p1, peers := peers st @ [s]\<rparr>))"

text \<open>
  The return of the handler of session \<open>s\<close> from its message loop: the deferred calls
  run on the pool. \<open>rc\<close> tells whether a read channel exists. The handler does not
  touch the list \<open>peerConnections\<close>; a closed connection leaves it in a later
  synchronisation pass, which is not modelled.
\<close>

definition websocket_close :: "bool \<Rightarrow> session \<Rightarrow> sfu_state \<Rightarrow> ws_event list \<times> sfu_state" where
  "websocket_close rc s st =
     (let (evs, p) = run_deferred rc (sess_deferred s) (pool st)
      in (evs, st\<lparr>pool := p\<rparr>))"

text \<open>An environment in which every library call succeeds.\<close>

definition env_ok :: "ws_env \<Rightarrow> bool" where
  "env_ok env \<longleftrightarrow> upgrade_ok env \<and> peer_connection_ok env \<and> transceiver_ok env \<and> write_channel_ok env"

text \<open>A run of connections that are opened one after the other and stay open.\<close>

fun open_all :: "8 word \<Rightarrow> ws_env list \<Rightarrow> sfu_state \<Rightarrow> sfu_state" where
  "open_all none_index [] st = st"
| "open_all none_index (env # envs) st = open_all none_index envs (snd (snd (websocket_open none_index env st)))"

definition sfu_init :: sfu_state where
  "sfu_init = \<lparr>pool = NewBytesPool 256, peers = []\<rparr>"

definition all_ok :: ws_env where
  "all_ok = \<lparr>upgrade_ok = True, peer_connection_ok = True, transceiver_ok = True,
             write_channel_ok = True, rand_ip = (7, 7, 7, 7)\<rparr>"

text \<open>The session that the first connection gets when every call succeeds.\<close>

definition first_session :: session where
  "first_session = \<lparr>sess_ip = (0, 7, 7, 7),
     sess_deferred = [DeferCloseWriteChannel, DeferCloseReadChannel, DeferTryPut 0,
                      DeferClosePeerConnection, DeferCloseWebsocket]\<rparr>"

text \<open>
  The state after \<open>k\<close> connections were admitted and none has left: the first \<open>k\<close>
  indices are held, in order, and the others are available.
\<close>

definition pool_inv :: "nat \<Rightarrow> sfu_state \<Rightarrow> bool" where
  "pool_inv k st \<longleftrightarrow>
     available (pool st) = map of_nat [k ..< 256] \<and>
     map (\<lambda>s. fst (sess_ip s)) (peers st) = map of_nat [0 ..< k]"

subsection \<open>The life of an admitted session\<close>

text \<open>
  While the handler of a session sits in its message loop, callbacks and the read loop
  run beside it. The steps, each taken at once: the write channel opens (its callback
  creates the read channel), the read channel opens (its callback starts \<open>ReadLoop\<close>),
  a \<open>Read\<close> of the loop returns data or fails, the loop pushes the packet it holds to
  the engine under the session's address, the connection state becomes failed (the
  callback closes the peer connection), and the handler returns. Data arrives only
  while the handler has not returned. A callback of the write channel that fails to
  create the read channel leaves the session as it was: that run is the run without
  the step.
\<close>

datatype read_loop = NotStarted | Reading | Holding bytes | Exited

datatype session_action =
    WriteChannelOpens
  | ReadChannelOpens
  | ReadReturns bytes
  | ReadFails
  | PushesPacket
  | ConnectionFails
  | HandlerReturns

text \<open>
  What a session does, call by call: a deferred call of the handler, the close of the
  peer connection by the failure callback, a packet pushed by the read loop.
\<close>

datatype session_event = Deferred ws_event | FailedClose | PushPacket ip4

record run_state =
  sr_sfu :: sfu_state
  sr_events :: "session_event list"
  sr_read_channel :: bool
  sr_loop :: read_loop
  sr_returned :: bool
  sr_inbound :: "Packet list"

fun session_step :: "session \<Rightarrow> session_action \<Rightarrow> run_state \<Rightarrow> run_state" where
  "session_step s WriteChannelOpens r =
     (if sr_returned r then r else r\<lparr>sr_read_channel := True\<rparr>)"
| "session_step s ReadChannelOpens r =
     (if sr_read_channel r \<and> sr_loop r = NotStarted \<and> \<not> sr_returned r
      then r\<lparr>sr_loop := Reading\<rparr> else r)"
| "session_step s (ReadReturns dat) r =
     (if sr_loop r = Reading \<and> \<not> sr_returned r then r\<lparr>sr_loop := Holding dat\<rparr> else r)"
| "session_step s ReadFails r =
     (if sr_loop r = Reading then r\<lparr>sr_loop := Exited\<rparr> else r)"
| "session_step s PushesPacket r =
     (case sr_loop r of
        Holding dat \<Rightarrow>
          r\<lparr>sr_inbound := sr_inbound r @ [\<lparr>Addr = \<lparr>IP = sess_ip s, Port = 1000\<rparr>, Data = dat\<rparr>],
            sr_events := sr_events r @ [PushPacket (sess_ip s)],
            sr_loop := Reading\<rparr>
      | _ \<Rightarrow> r)"
| "session_step s ConnectionFails r =
     (if sr_returned r then r else r\<lparr>sr_events := sr_events r @ [FailedClose]\<rparr>)"
| "session_step s HandlerReturns r =
     (if sr_returned r then r
      else let (evs, st') = websocket_close (sr_read_channel r) s (sr_sfu r)
           in r\<lparr>sr_sfu := st', sr_events := sr_events r @ map Deferred evs, sr_returned := True\<rparr>)"

fun session_run :: "session \<Rightarrow> session_action list \<Rightarrow> run_state \<Rightarrow> run_state" where
  "session_run s [] r = r"
| "session_run s (a # acts) r = session_run s acts (session_step s a r)"

definition session_start :: "sfu_state \<Rightarrow> run_state" where
  "session_start st =
     \<lparr>sr_sfu = st, sr_events = [], sr_read_channel = False, sr_loop = NotStarted,
      sr_returned = False, sr_inbound = []\<rparr>"

text \<open>
  The two parts of the order the claim asks for. First: once an index is put back, no
  close of a data channel or of the peer connection comes after it. Second: once an
  index is put back, no packet is pushed under it (no index is handed out again in
  the run of one session).
\<close>

definition put_back_last :: "session_event list \<Rightarrow> bool" where
  "put_back_last evs =
     (case dropWhile (\<lambda>e. case e of Deferred (PoolTryPut i) \<Rightarrow> False | _ \<Rightarrow> True) evs of
        [] \<Rightarrow> True
      | e # after \<Rightarrow> Deferred ClosePeerConnection \<notin> set after \<and> FailedClose \<notin> set after \<and>
                     Deferred CloseReadChannel \<notin> set after \<and> Deferred CloseWriteChannel \<notin> set after)"

fun no_late_packet :: "session_event list \<Rightarrow> bool" where
  "no_late_packet [] = True"
| "no_late_packet (Deferred (PoolTryPut i) # evs) =
     (list_all (\<lambda>e. case e of PushPacket ip \<Rightarrow> fst ip \<noteq> i | _ \<Rightarrow> True) evs \<and> no_late_packet evs)"
| "no_late_packet (e # evs) = no_late_packet evs"

text \<open>
  The state in which the first session starts, and a run of it in which the read loop
  holds a packet when the handler returns and pushes it afterwards.
\<close>

definition first_started :: run_state where
  "first_started = session_start (snd (snd (websocket_open 0 all_ok sfu_init)))"

definition late_run :: run_state where
  "late_run =
     session_run first_session
       [WriteChannelOpens, ReadChannelOpens, ReadReturns [1], HandlerReturns, PushesPacket]
       first_started"

section \<open>Log fan-out (logging.go, handlers.go, the logger)\<close>

record LogEntry =
  Timestamp :: int
  Message :: string

text \<open>What the server writes to a log-stream websocket.\<close>

datatype log_message = History "LogEntry option list" | LogLine string

text \<open>
  \<open>GetAll\<close> takes the read lock twice: once to read \<open>size\<close> and \<open>head\<close>, and again for
  the copy, so that entries can be added in between. \<open>GetAll_copy\<close> is the part after
  the first lock, run on the buffer as it is by then with the \<open>size\<close> and \<open>head\<close> read
  before.
\<close>

definition GetAll_copy :: "'a CircularBuffer \<Rightarrow> int \<Rightarrow> int \<Rightarrow> panic + 'a option list" where
  "GetAll_copy cb sz h =
     (if sz = 0 then Inr []
      else if sz < 0 then Inl MakeLenOutOfRange
      else let start = h - sz;
               start = (if start < 0 then start + cb_capacity cb else start)
           in GetAll_loop cb start [0 ..< nat sz])"

text \<open>
  The shared state: the ring buffer, the broadcast channel and the clients' channels
  with their contents (each of capacity 256), what was written to each connection
  after the confirmation of its authentication (the pings of the write pump apart),
  and for each handler inside \<open>GetAll\<close> the \<open>size\<close> and \<open>head\<close> it has read. A
  connection is named by a number. Writes to a connection succeed.
\<close>

record log_state =
  logBuffer :: "LogEntry CircularBuffer"
  logBroadcast :: "string list"
  logClients :: "nat \<rightharpoonup> string list"
  wire :: "nat \<Rightarrow> log_message list"
  snapshots :: "nat \<rightharpoonup> int \<times> int"

definition chan_cap :: nat where
  "chan_cap = 256"

subsection \<open>The steps that run under one lock or as one channel operation\<close>

text \<open>\<open>logBuffer.Add\<close> of a new entry.\<close>

definition ring_add :: "int \<Rightarrow> string \<Rightarrow> log_state \<Rightarrow> panic + log_state" where
  "ring_add now message st =
     (case Add (logBuffer st) (Some \<lparr>Timestamp = now, Message = message\<rparr>) of
        Inl e \<Rightarrow> Inl e
      | Inr cb \<Rightarrow> Inr (st\<lparr>logBuffer := cb\<rparr>))"

text \<open>The offer to the broadcast channel that does not block: a full channel drops the line.\<close>

definition offer :: "string \<Rightarrow> log_state \<Rightarrow> log_state" where
  "offer message st =
     st\<lparr>logBroadcast := (if length (logBroadcast st) < chan_cap
                          then logBroadcast st @ [message] else logBroadcast st)\<rparr>"

text \<open>
  One round of \<open>logBroadcaster\<close>: it takes the next message of the broadcast channel
  and offers it to every client's channel without blocking. With nothing to take it
  waits, and the state stays as it is.
\<close>

definition logBroadcaster_step :: "log_state \<Rightarrow> log_state" where
  "logBroadcaster_step st =
     (case logBroadcast st of
        [] \<Rightarrow> st
      | message # rest \<Rightarrow>
          st\<lparr>logBroadcast := rest,
             logClients := (\<lambda>c. case logClients st c of
                                   None \<Rightarrow> None
                                 | Some q \<Rightarrow> Some (if length q < chan_cap then q @ [message] else q))\<rparr>)"

text \<open>The two parts of \<open>sendHistory\<close>: the first lock of \<open>GetAll\<close>, then the copy and the write.\<close>

definition history_snapshot :: "nat \<Rightarrow> log_state \<Rightarrow> log_state" where
  "history_snapshot conn st =
     st\<lparr>snapshots := (snapshots st)(conn \<mapsto> (cb_size (logBuffer st), cb_head (logBuffer st)))\<rparr>"

definition history_copy :: "nat \<Rightarrow> log_state \<Rightarrow> panic + log_state" where
  "history_copy conn st =
     (case snapshots st conn of
        None \<Rightarrow> Inr st
      | Some (sz, h) \<Rightarrow>
          (case GetAll_copy (logBuffer st) sz h of
             Inl e \<Rightarrow> Inl e
           | Inr history \<Rightarrow>
               Inr (st\<lparr>snapshots := (snapshots st)(conn := None),
                       wire := (if length history = 0 then wire st
                                else (wire st)(conn := wire st conn @ [History history]))\<rparr>)))"

text \<open>The registration of the client's channel in \<open>logsWebSocketHandler\<close>, and its removal.\<close>

definition register_client :: "nat \<Rightarrow> log_state \<Rightarrow> log_state" where
  "register_client conn st = st\<lparr>logClients := (logClients st)(conn \<mapsto> [])\<rparr>"

definition unregister_client :: "nat \<Rightarrow> log_state \<Rightarrow> log_state" where
  "unregister_client conn st = st\<lparr>logClients := (logClients st)(conn := None)\<rparr>"

text \<open>One round of the write pump of a connection: the next line of its channel is written.\<close>

definition write_pump_step :: "nat \<Rightarrow> log_state \<Rightarrow> log_state" where
  "write_pump_step conn st =
     (case logClients st conn of
        Some (message # rest) \<Rightarrow>
          st\<lparr>logClients := (logClients st)(conn \<mapsto> rest),
             wire := (wire st)(conn := wire st conn @ [LogLine message])\<rparr>
      | _ \<Rightarrow> st)"

subsection \<open>The source functions, each run with nothing in between\<close>

text \<open>\<open>broadcastLog\<close> adds to the ring and then offers to the channel.\<close>

definition broadcastLog :: "int \<Rightarrow> string \<Rightarrow> log_state \<Rightarrow> panic + log_state" where
  "broadcastLog now message st =
     (case ring_add now message st of Inl e \<Rightarrow> Inl e | Inr st' \<Rightarrow> Inr (offer message st'))"

text \<open>
  \<open>Logger.broadcast\<close> offers the formatted line to the channel first and adds it to the
  ring afterwards. The formatting is left out: \<open>fullMessage\<close> is the formatted line.
\<close>

definition Logger_broadcast :: "int \<Rightarrow> string \<Rightarrow> log_state \<Rightarrow> panic + log_state" where
  "Logger_broadcast now fullMessage st = ring_add now fullMessage (offer fullMessage st)"

definition sendHistory :: "nat \<Rightarrow> log_state \<Rightarrow> panic + log_state" where
  "sendHistory conn st = history_copy conn (history_snapshot conn st)"

subsection \<open>Goroutines side by side\<close>

text \<open>
  The goroutines take the steps above in any order. A publisher is \<open>RingAdd\<close> then
  \<open>Offer\<close> (\<open>broadcastLog\<close>) or \<open>Offer\<close> then \<open>RingAdd\<close> (\<open>Logger.broadcast\<close>); the handler of a
  subscriber is \<open>Snapshot\<close>, \<open>Copy\<close>, \<open>Register\<close>, then its write pump, and \<open>Unregister\<close>
  when it leaves.
\<close>

datatype log_action =
    RingAdd int string
  | Offer string
  | Dispatch
  | Snapshot nat
  | Copy nat
  | Register nat
  | Unregister nat
  | Pump nat

fun log_step :: "log_action \<Rightarrow> log_state \<Rightarrow> panic + log_state" where
  "log_step (RingAdd now message) st = ring_add now message st"
| "log_step (Offer message) st = Inr (offer message st)"
| "log_step Dispatch st = Inr (logBroadcaster_step st)"
| "log_step (Snapshot conn) st = Inr (history_snapshot conn st)"
| "log_step (Copy conn) st = history_copy conn st"
| "log_step (Register conn) st = Inr (register_client conn st)"
| "log_step (Unregister conn) st = Inr (unregister_client conn st)"
| "log_step (Pump conn) st = Inr (write_pump_step conn st)"

fun log_run :: "log_action list \<Rightarrow> log_state \<Rightarrow> panic + log_state" where
  "log_run [] st = Inr st"
| "log_run (a # acts) st = (case log_step a st of Inl e \<Rightarrow> Inl e | Inr st' \<Rightarrow> log_run acts st')"





subsection \<open>Example states and runs\<close>









section \<open>Verified properties\<close>

subsection \<open>Ring buffer\<close>

lemma go_rem_mod: "0 \<le> a \<Longrightarrow> 0 < b \<Longrightarrow> go_rem a b = a mod b"
  by (simp add: go_rem_def go_quot_def sgn_if minus_mult_div_eq_mod)

lemma ring_inv_New: "0 < n \<Longrightarrow> \<exists>cb. NewCircularBuffer n = Inr cb \<and> ring_inv n [] cb"
  by (simp add: NewCircularBuffer_def ring_inv_def)

lemma mod_window_neq:
  fixes i m n :: nat
  assumes "0 < n" "i < m" "m < i + n"
  shows "i mod n \<noteq> m mod n"
proof
  assume "i mod n = m mod n"
  then have "(m - i) mod n = 0"
    using assms by (metis less_imp_le_nat mod_eq_dvd_iff_nat dvd_eq_mod_eq_0)
  moreover have "0 < m - i" "m - i < n" using assms by auto
  ultimately show False by simp
qed

lemma Add_inv:
  assumes "0 < n" "ring_inv n xs cb"
  shows "\<exists>cb'. Add cb x = Inr cb' \<and> ring_inv n (xs @ [x]) cb'"
proof -
  let ?m = "length xs"
  have cap: "cb_capacity cb = n" and len: "length (cb_buffer cb) = nat n"
    and hd: "cb_head cb = int ?m mod n" and sz: "cb_size cb = min (int ?m) n"
    and win: "\<And>i. ?m - nat n \<le> i \<Longrightarrow> i < ?m \<Longrightarrow> cb_buffer cb ! (i mod nat n) = xs ! i"
    using assms(2) by (auto simp: ring_inv_def)
  have hd_range: "0 \<le> cb_head cb" "cb_head cb < n"
    using assms(1) hd by simp_all
  have hd_nat: "nat (cb_head cb) = ?m mod nat n"
    using assms(1) hd by (simp add: nat_mod_distrib)
  define cb' where "cb' = cb\<lparr>cb_buffer := (cb_buffer cb)[nat (cb_head cb) := x],
                   cb_head := go_rem (cb_head cb + 1) (cb_capacity cb),
                   cb_size := (if cb_size cb < cb_capacity cb then cb_size cb + 1 else cb_size cb)\<rparr>"
  have add: "Add cb x = Inr cb'"
    using hd_range len cap assms(1) by (simp add: Add_def cb'_def)
  have h': "cb_head cb' = int (length (xs @ [x])) mod n"
    using hd_range assms(1) cap hd by (simp add: cb'_def go_rem_mod mod_simps add.commute)
  have s': "cb_size cb' = min (int (length (xs @ [x]))) n"
    using sz cap by (auto simp: cb'_def min_def)
  have w': "cb_buffer cb' ! (i mod nat n) = (xs @ [x]) ! i"
    if "length (xs @ [x]) - nat n \<le> i" "i < length (xs @ [x])" for i
  proof (cases "i = ?m")
    case True
    then show ?thesis using len assms(1) hd_nat by (simp add: cb'_def)
  next
    case False
    then have lt: "i < ?m" using that by simp
    have "0 < nat n" using assms(1) by simp
    then have "?m < i + nat n" using that(1) by simp
    then have "i mod nat n \<noteq> ?m mod nat n"
      using mod_window_neq [of "nat n" i ?m] lt assms(1) by simp
    moreover have "?m - nat n \<le> i" using that(1) by simp
    ultimately show ?thesis using win [of i] lt hd_nat by (simp add: cb'_def nth_append)
  qed
  have "ring_inv n (xs @ [x]) cb'"
    unfolding ring_inv_def using h' s' w' cap len by (simp add: cb'_def)
  with add show ?thesis by blast
qed

lemma AddAll_inv:
  "0 < n \<Longrightarrow> ring_inv n xs cb \<Longrightarrow> \<exists>cb'. AddAll cb ys = Inr cb' \<and> ring_inv n (xs @ ys) cb'"
proof (induction ys arbitrary: xs cb)
  case Nil
  then show ?case by simp
next
  case (Cons y ys)
  from Add_inv [OF Cons.prems, of y] obtain cb1
    where a: "Add cb y = Inr cb1" and i: "ring_inv n (xs @ [y]) cb1" by blast
  from Cons.IH [OF Cons.prems(1) i] obtain cb2
    where "AddAll cb1 ys = Inr cb2" "ring_inv n ((xs @ [y]) @ ys) cb2" by blast
  with a show ?case by simp
qed

lemma GetAll_loop_map:
  assumes "0 < cb_capacity cb" "length (cb_buffer cb) = nat (cb_capacity cb)" "0 \<le> start"
  shows "GetAll_loop cb start js =
         Inr (map (\<lambda>i. cb_buffer cb ! nat ((start + int i) mod cb_capacity cb)) js)"
proof (induction js)
  case Nil
  then show ?case by simp
next
  case (Cons j js)
  have a: "0 \<le> start + int j" using assms(3) by simp
  have b: "0 \<le> (start + int j) mod cb_capacity cb" "(start + int j) mod cb_capacity cb < cb_capacity cb"
    using assms(1) by simp_all
  show ?case using Cons assms(1,2) a b by (simp add: go_rem_mod Let_def)
qed

lemma GetAll_inv:
  assumes "0 < n" "ring_inv n xs cb"
  shows "GetAll cb = Inr (drop (length xs - nat n) xs)"
proof -
  let ?m = "length xs"
  have cap: "cb_capacity cb = n" and len: "length (cb_buffer cb) = nat n"
    and hd: "cb_head cb = int ?m mod n" and sz: "cb_size cb = min (int ?m) n"
    and win: "\<And>i. ?m - nat n \<le> i \<Longrightarrow> i < ?m \<Longrightarrow> cb_buffer cb ! (i mod nat n) = xs ! i"
    using assms(2) by (auto simp: ring_inv_def)
  show ?thesis
  proof (cases "xs = []")
    case True
    then show ?thesis using sz assms(1) by (simp add: GetAll_def)
  next
    case False
    then have pos: "0 < cb_size cb" using sz assms(1) by (simp add: min_def)
    define d where "d = cb_head cb - cb_size cb"
    define start where "start = (if d < 0 then d + n else d)"
    have hdr: "0 \<le> cb_head cb" "cb_head cb < n" using hd assms(1) by simp_all
    have szn: "cb_size cb \<le> n" using sz by simp
    have st0: "0 \<le> start" using hdr szn by (auto simp: start_def d_def)
    have stmod: "start mod n = (int ?m - cb_size cb) mod n"
      by (simp add: start_def d_def hd mod_simps)
    have ga: "GetAll cb = GetAll_loop cb start [0 ..< nat (cb_size cb)]"
      using pos by (simp add: GetAll_def Let_def start_def d_def cap)
    have nsz: "nat (cb_size cb) = min ?m (nat n)" using sz assms(1) by (auto simp: min_def)
    have off: "?m - nat n = ?m - nat (cb_size cb)" using nsz by (simp add: min_def)
    have el: "cb_buffer cb ! nat ((start + int i) mod n) = xs ! (?m - nat (cb_size cb) + i)"
      if "i < nat (cb_size cb)" for i
    proof -
      let ?j = "?m - nat (cb_size cb) + i"
      have jlt: "?j < ?m" using that nsz by (simp add: min_def split: if_splits)
      have "(start + int i) mod n = (int ?m - cb_size cb + int i) mod n"
        using stmod by (metis mod_add_left_eq)
      also have "int ?m - cb_size cb + int i = int ?j"
        using nsz pos by (simp add: min_def split: if_splits)
      finally have e: "(start + int i) mod n = int ?j mod n" .
      have "nat (int ?j mod n) = ?j mod nat n"
        using assms(1) by (simp only: nat_mod_distrib [of "int ?j" n] nat_int)
      with e have "nat ((start + int i) mod n) = ?j mod nat n" by simp
      then show ?thesis using win [of ?j] jlt off by simp
    qed
    have "GetAll cb = Inr (map (\<lambda>i. cb_buffer cb ! nat ((start + int i) mod n)) [0 ..< nat (cb_size cb)])"
      using ga GetAll_loop_map [of cb start] cap len assms(1) st0 by simp
    also have "map (\<lambda>i. cb_buffer cb ! nat ((start + int i) mod n)) [0 ..< nat (cb_size cb)]
             = map (\<lambda>i. xs ! (?m - nat (cb_size cb) + i)) [0 ..< nat (cb_size cb)]"
      using el by simp
    also have "\<dots> = drop (?m - nat (cb_size cb)) xs"
      by (rule nth_equalityI) (simp_all add: nsz min_def)
    finally show ?thesis using off by simp
  qed
qed

text \<open>
  Claim C6. For every capacity \<open>n > 0\<close>, a new buffer to which the entries \<open>xs\<close> were
  added in order returns from \<open>GetAll\<close> the last \<open>n\<close> of them (all of them when
  fewer were added), oldest first, without a panic; the result is never longer than
  the capacity, and after \<open>n + k\<close> additions it has length exactly \<open>n\<close> and is
  \<open>xs\<close> without its first \<open>k\<close> entries.
\<close>

theorem GetAll_last_entries:
  assumes "0 < n"
  shows "ring_after n xs = Inr (drop (length xs - nat n) xs) \<and>
         length (drop (length xs - nat n) xs) \<le> nat n \<and>
         (\<forall>k. length xs = nat n + k \<longrightarrow>
              ring_after n xs = Inr (drop k xs) \<and> length (drop k xs) = nat n)"
proof -
  from ring_inv_New [OF assms] obtain cb0 :: "'a CircularBuffer"
    where n: "NewCircularBuffer n = Inr cb0" and i0: "ring_inv n [] cb0" by blast
  from AddAll_inv [OF assms i0, of xs] obtain cb
    where a: "AddAll cb0 xs = Inr cb" and i: "ring_inv n xs cb" by auto
  have r: "ring_after n xs = Inr (drop (length xs - nat n) xs)"
    using n a GetAll_inv [OF assms i] by (simp add: ring_after_def)
  then show ?thesis by auto
qed

theorem GetAll_last_entries_witness:
  "(0::int) < 3 \<and> length [Some (1::nat), Some 2, Some 3, Some 4, Some 5] = nat 3 + 2 \<and>
   ring_after 3 [Some (1::nat), Some 2, Some 3, Some 4, Some 5] = Inr [Some 3, Some 4, Some 5]"
  using GetAll_last_entries [of 3 "[Some (1::nat), Some 2, Some 3, Some 4, Some 5]"]
  by simp

subsection \<open>Packed words\<close>

lemma low32_mask: "(0xFFFFFFFF :: 64 word) = mask 32"
  by (simp add: mask_eq_exp_minus_1)

lemma take_bit32_self:
  fixes w :: "64 word"
  assumes "w < 2 ^ 32"
  shows "take_bit 32 w = w"
  using less_mask_eq [OF assms] by (simp add: take_bit_eq_mask)

lemma hi_bits_clear:
  fixes w :: "64 word"
  assumes "w < 2 ^ 32"
  shows "\<not> bit w (32 + k)"
proof -
  have "bit w (32 + k) = bit (take_bit 32 w) (32 + k)"
    using take_bit32_self [OF assms] by simp
  then show ?thesis by (simp add: bit_take_bit_iff)
qed

lemma pack_hi:
  fixes a t :: "64 word"
  assumes "a < 2 ^ 32" "t < 2 ^ 32"
  shows "drop_bit 32 (push_bit 32 a OR t) = a"
proof (rule bit_word_eqI)
  fix k assume "k < LENGTH(64)"
  show "bit (drop_bit 32 (push_bit 32 a OR t)) k = bit a k"
    using hi_bits_clear [OF assms(2), of k] hi_bits_clear [OF assms(1), of "k - 32"]
    by (cases "k < 32") (auto simp: bit_simps)
qed

lemma pack_lo:
  fixes a t :: "64 word"
  assumes "t < 2 ^ 32"
  shows "(push_bit 32 a OR t) AND 0xFFFFFFFF = t"
proof -
  have "(push_bit 32 a OR t) AND mask 32 = take_bit 32 (push_bit 32 a) OR take_bit 32 t"
    by (simp add: take_bit_eq_mask [symmetric])
  also have "take_bit 32 (push_bit 32 a) = 0"
    by (simp add: take_bit_push_bit)
  finally show ?thesis using take_bit32_self [OF assms] by (simp add: low32_mask)
qed

lemma word_of_int_small:
  assumes "0 \<le> k" "k < 2 ^ 32"
  shows "uint (word_of_int k :: 64 word) = k" and "(word_of_int k :: 64 word) < 2 ^ 32"
proof -
  have "k < 2 ^ 64" using assms(2) by simp
  then show u: "uint (word_of_int k :: 64 word) = k"
    using assms(1) by (simp add: uint_word_of_int)
  show "(word_of_int k :: 64 word) < 2 ^ 32"
    using u assms(2) by (simp add: word_less_alt)
qed

lemma ucast32_small:
  fixes w :: "32 word"
  shows "(ucast w :: 64 word) < 2 ^ 32"
proof -
  have r: "0 \<le> uint w" "uint w < 2 ^ 32"
    using uint_range_size [of w] by (simp_all add: word_size)
  then have "uint w < 2 ^ 64" by simp
  then have "uint (ucast w :: 64 word) = uint w"
    using r(1) by (simp add: unsigned_ucast_eq take_bit_int_eq_self_iff)
  then show ?thesis using r(2) by (simp add: word_less_alt)
qed

lemma ucast_time:
  fixes t :: "64 word"
  assumes "t < 2 ^ 32"
  shows "(ucast (ucast t :: 32 word) :: 64 word) = t"
proof (rule bit_word_eqI)
  fix k assume "k < LENGTH(64)"
  show "bit (ucast (ucast t :: 32 word) :: 64 word) k = bit t k"
    using hi_bits_clear [OF assms, of "k - 32"]
    by (cases "k < 32") (auto simp: bit_word_ucast_iff)
qed

lemma ucast_word_of_int32:
  assumes "0 \<le> k" "k < 2 ^ 32"
  shows "(ucast (word_of_int k :: 32 word) :: 64 word) = word_of_int k"
proof -
  have a: "uint (word_of_int k :: 32 word) = k"
    using assms by (simp add: uint_word_of_int)
  have "k < 2 ^ 64" using assms(2) by simp
  then have "uint (ucast (word_of_int k :: 32 word) :: 64 word) = k"
    using a assms(1) by (simp add: unsigned_ucast_eq take_bit_int_eq_self_iff)
  then show ?thesis by (metis word_of_int_uint)
qed

subsection \<open>Rounding\<close>

lemma fl_int: "float_rounding fl \<Longrightarrow> \<bar>k\<bar> \<le> 2 ^ 53 \<Longrightarrow> fl (of_int k) = of_int k"
  by (simp add: float_rounding_def)

lemma fl_between:
  assumes "float_rounding fl" "of_int a \<le> x" "x \<le> of_int b" "\<bar>a\<bar> \<le> 2 ^ 53" "\<bar>b\<bar> \<le> 2 ^ 53"
  shows "of_int a \<le> fl x \<and> fl x \<le> of_int b"
proof -
  have "fl (of_int a) \<le> fl x" "fl x \<le> fl (of_int b)"
    using assms(1,2,3) by (simp_all add: float_rounding_def)
  then show ?thesis using fl_int [OF assms(1,4)] fl_int [OF assms(1,5)] by simp
qed

lemma float_trunc_between:
  assumes "of_int a \<le> x" "x \<le> of_int b" "0 \<le> a"
  shows "a \<le> float_trunc x \<and> float_trunc x \<le> b"
proof -
  have "0 \<le> x" using assms(1,3) by (meson of_int_0_le_iff order_trans)
  then have "float_trunc x = \<lfloor>x\<rfloor>" by (simp add: float_trunc_def)
  then show ?thesis using assms(1,2) by (simp add: le_floor_iff floor_le_iff)
qed

lemma float_trunc_int: "0 \<le> k \<Longrightarrow> float_trunc (of_int k) = k"
  by (simp add: float_trunc_def)

subsection \<open>One call of allow\<close>

lemma refill_le: "refill fl rate capacity now s \<le> capacity"
  by (simp add: refill_def Let_def)

lemma small_bounds:
  fixes n :: nat
  assumes "n * 1000 < 2 ^ 32"
  shows "\<bar>int n\<bar> \<le> 2 ^ 53" "\<bar>int n * 1000\<bar> \<le> 2 ^ 53" "int n * 1000 < 2 ^ 32"
        "\<bar>int n - 1\<bar> \<le> 2 ^ 53" "\<bar>(int n - 1) * 1000\<bar> \<le> 2 ^ 53" "(int n - 1) * 1000 < 2 ^ 32"
proof -
  have a: "int n * 1000 < 2 ^ 32" using assms by (metis of_nat_less_numeral_power_cancel_iff of_nat_mult of_nat_numeral)
  then show "\<bar>int n\<bar> \<le> 2 ^ 53" "\<bar>int n * 1000\<bar> \<le> 2 ^ 53" "int n * 1000 < 2 ^ 32"
        "\<bar>int n - 1\<bar> \<le> 2 ^ 53" "\<bar>(int n - 1) * 1000\<bar> \<le> 2 ^ 53" "(int n - 1) * 1000 < 2 ^ 32"
    by simp_all
qed

lemma allow_consumed:
  assumes fl: "float_rounding fl" and n: "n * 1000 < 2 ^ 32"
    and now: "now < 2 ^ 32" and ok: "allow fl rate (of_nat n) now s = (True, s')"
  shows "0 \<le> fl (refill fl rate (of_nat n) now s - 1)"
    and "uint (drop_bit 32 s') \<le> (int n - 1) * 1000"
    and "s' AND 0xFFFFFFFF = now"
proof -
  define r where "r = refill fl rate (of_nat n) now s"
  define c where "c = fl (r - 1)"
  define y where "y = fl (c * tokenMultiplier)"
  have r1: "1 \<le> r" and s': "s' = push_bit 32 (word_of_int (float_trunc y)) OR now"
    using ok by (auto simp: allow_def Let_def r_def c_def y_def split: if_splits)
  have rn: "r \<le> of_int (int n)" using refill_le [of fl rate "of_nat n" now s] by (simp add: r_def)
  have "of_int 0 \<le> r - 1" "r - 1 \<le> of_int (int n - 1)" using r1 rn by simp_all
  from fl_between [OF fl this] small_bounds(4) [OF n]
  have c: "0 \<le> c" "c \<le> of_int (int n - 1)" by (simp_all add: c_def)
  have "of_int 0 \<le> c * tokenMultiplier" "c * tokenMultiplier \<le> of_int ((int n - 1) * 1000)"
    using c by (simp_all add: tokenMultiplier_def)
  from fl_between [OF fl this] small_bounds(5) [OF n]
  have y: "of_int 0 \<le> y" "y \<le> of_int ((int n - 1) * 1000)" by (simp_all add: y_def)
  from float_trunc_between [OF y] 
  have k: "0 \<le> float_trunc y" "float_trunc y \<le> (int n - 1) * 1000" by simp_all
  then have k32: "float_trunc y < 2 ^ 32" using small_bounds(6) [OF n] by linarith
  show "0 \<le> fl (refill fl rate (of_nat n) now s - 1)" using c(1) by (simp add: c_def r_def)
  show "uint (drop_bit 32 s') \<le> (int n - 1) * 1000"
    using pack_hi [OF word_of_int_small(2) [OF k(1) k32] now] word_of_int_small(1) [OF k(1) k32] k(2)
    by (simp add: s')
  show "s' AND 0xFFFFFFFF = now" using pack_lo [OF now] by (simp add: s')
qed

lemma allow_rejected: "allow fl rate capacity now s = (False, s') \<Longrightarrow> s' = s"
  by (auto simp: allow_def Let_def split: if_splits)

lemma allow_bucket_ok:
  assumes "float_rounding fl" "n * 1000 < 2 ^ 32" "now < 2 ^ 32" "bucket_ok n s"
  shows "bucket_ok n (snd (allow fl rate (of_nat n) now s))"
proof (cases "allow fl rate (of_nat n) now s")
  case (Pair ok s')
  show ?thesis
  proof (cases ok)
    case True
    then show ?thesis using allow_consumed(2) [OF assms(1,2,3), of rate s s'] Pair
      by (simp add: bucket_ok_def)
  next
    case False
    then show ?thesis using allow_rejected [of fl rate "of_nat n" now s s'] Pair assms(4) by simp
  qed
qed

lemma new_bucket:
  assumes "float_rounding fl" "n * 1000 < 2 ^ 32"
  shows "newAtomicTokenBucket fl (of_nat n) tc
         = push_bit 32 (word_of_int (int n * 1000)) OR ucast (ucast tc :: 32 word)"
proof -
  have k: "(0::int) \<le> int n * 1000" by simp
  have a: "fl (of_nat n * tokenMultiplier) = of_int (int n * 1000)"
    using fl_int [OF assms(1) small_bounds(2) [OF assms(2)]] by (simp add: tokenMultiplier_def)
  have b: "float_trunc (of_int (int n * 1000)) = int n * 1000"
    using k by (rule float_trunc_int)
  have c: "(ucast (word_of_int (int n * 1000) :: 32 word) :: 64 word) = word_of_int (int n * 1000)"
    using k small_bounds(3) [OF assms(2)] by (rule ucast_word_of_int32)
  show ?thesis unfolding newAtomicTokenBucket_def Let_def a b c ..
qed

lemma new_bucket_ok:
  assumes "float_rounding fl" "n * 1000 < 2 ^ 32"
  shows "bucket_ok n (newAtomicTokenBucket fl (of_nat n) tc)"
proof -
  have k: "(0::int) \<le> int n * 1000" by simp
  show ?thesis
    using pack_hi [OF word_of_int_small(2) [OF k small_bounds(3) [OF assms(2)]] ucast32_small [of "ucast tc"]]
      word_of_int_small(1) [OF k small_bounds(3) [OF assms(2)]]
    by (simp add: new_bucket [OF assms] bucket_ok_def)
qed

lemma tokens_of_bounds:
  assumes "float_rounding fl" "n * 1000 < 2 ^ 32" "bucket_ok n s"
  shows "0 \<le> tokens_of fl s \<and> tokens_of fl s \<le> of_nat n"
proof -
  define f where "f = uint (drop_bit 32 s)"
  have f: "0 \<le> f" "f \<le> int n * 1000" using assms(3) by (simp_all add: f_def bucket_ok_def)
  then have "\<bar>f\<bar> \<le> 2 ^ 53" using small_bounds(2) [OF assms(2)] by simp
  then have e: "fl (of_int f) = of_int f" using fl_int [OF assms(1)] by simp
  have "of_int 0 \<le> (of_int f :: rat) / tokenMultiplier" "(of_int f :: rat) / tokenMultiplier \<le> of_int (int n)"
    using f by (simp_all add: tokenMultiplier_def divide_le_eq) 
  from fl_between [OF assms(1) this] small_bounds(1) [OF assms(2)]
  have "0 \<le> fl (of_int f / tokenMultiplier) \<and> fl (of_int f / tokenMultiplier) \<le> of_nat n"
    by simp
  then show ?thesis unfolding tokens_of_def f_def [symmetric] e .
qed

subsection \<open>Sequences of calls\<close>

lemma Allow_fields:
  "rl_capacity (snd (Allow fl rl ip tc now)) = rl_capacity rl"
  "rl_rate (snd (Allow fl rl ip tc now)) = rl_rate rl"
  "rl_visitors (snd (Allow fl rl ip tc now)) ip =
     Some (snd (allow fl (rl_rate rl) (rl_capacity rl) now (current_bucket fl rl ip tc)))"
  "fst (Allow fl rl ip tc now) =
     fst (allow fl (rl_rate rl) (rl_capacity rl) now (current_bucket fl rl ip tc))"
  by (simp_all add: Allow_def current_bucket_def Let_def split: prod.splits)

lemma Allow_seq_Cons:
  "fst (Allow_seq fl rl ip ((tc, now) # ts))
     = fst (Allow fl rl ip tc now) # fst (Allow_seq fl (snd (Allow fl rl ip tc now)) ip ts)"
  "snd (Allow_seq fl rl ip ((tc, now) # ts))
     = snd (Allow_seq fl (snd (Allow fl rl ip tc now)) ip ts)"
  by (simp_all add: split_beta)

lemma Allow_limiter_ok:
  assumes "float_rounding fl" "n * 1000 < 2 ^ 32" "now < 2 ^ 32" "limiter_ok n rl ip"
  shows "limiter_ok n (snd (Allow fl rl ip tc now)) ip"
proof -
  have cap: "rl_capacity rl = of_nat n" using assms(4) by (simp add: limiter_ok_def)
  have "bucket_ok n (current_bucket fl rl ip tc)"
    using assms(4) new_bucket_ok [OF assms(1,2), of tc]
    by (auto simp: limiter_ok_def current_bucket_def cap split: option.splits)
  from allow_bucket_ok [OF assms(1,2,3) this]
  show ?thesis by (simp add: limiter_ok_def Allow_fields cap)
qed

lemma Allow_seq_limiter_ok:
  assumes "float_rounding fl" "n * 1000 < 2 ^ 32"
  shows "limiter_ok n rl ip \<Longrightarrow> \<forall>(tc, now) \<in> set ts. now < 2 ^ 32 \<Longrightarrow>
         limiter_ok n (snd (Allow_seq fl rl ip ts)) ip"
proof (induction ts arbitrary: rl)
  case Nil
  then show ?case by simp
next
  case (Cons a ts)
  obtain tc now where a: "a = (tc, now)" by (cases a)
  have "now < 2 ^ 32" using Cons.prems(2) a by simp
  from Allow_limiter_ok [OF assms this Cons.prems(1), of tc]
  have "limiter_ok n (snd (Allow_seq fl (snd (Allow fl rl ip tc now)) ip ts)) ip"
    using Cons.IH Cons.prems(2) by simp
  then show ?case by (simp only: a Allow_seq_Cons)
qed

subsection \<open>A burst in one second\<close>

lemma allow_burst:
  assumes fl: "float_rounding fl" and n: "n * 1000 < 2 ^ 32" and t: "t < 2 ^ 32" and k: "k \<le> n"
  shows "allow fl rate (of_nat n) t (burst_state n k t)
         = (if k < n then (True, burst_state n (Suc k) t) else (False, burst_state n k t))"
proof -
  define m where "m = int n - int k"
  have m: "0 \<le> m" "m \<le> int n" using k by (simp_all add: m_def)
  have mb: "0 \<le> m * 1000" "m * 1000 < 2 ^ 32" "\<bar>m * 1000\<bar> \<le> 2 ^ 53" "\<bar>m\<bar> \<le> 2 ^ 53"
    using m small_bounds(3) [OF n] by simp_all
  have st: "burst_state n k t = push_bit 32 (word_of_int (m * 1000)) OR t"
    by (simp only: burst_state_def m_def)
  have hi: "uint (drop_bit 32 (burst_state n k t)) = m * 1000"
    using pack_hi [OF word_of_int_small(2) [OF mb(1,2)] t] word_of_int_small(1) [OF mb(1,2)]
    by (simp only: st)
  have lo: "burst_state n k t AND 0xFFFFFFFF = t"
    using pack_lo [OF t] by (simp only: st)
  have z: "fl 0 = 0" using fl_int [OF fl, of 0] by simp
  have o1: "fl (of_int (m * 1000)) = of_int (m * 1000)" using fl_int [OF fl mb(3)] .
  have "(of_int (m * 1000) :: rat) / tokenMultiplier = of_int m" by (simp add: tokenMultiplier_def)
  then have o2: "fl (of_int (m * 1000) / tokenMultiplier) = of_int m" using fl_int [OF fl mb(4)] by simp
  have r: "refill fl rate (of_nat n) t (burst_state n k t) = of_int m"
    unfolding refill_def Let_def hi lo o1 o2 using m(2) fl_int [OF fl mb(4)] by (simp add: z)
  show ?thesis
  proof (cases "k < n")
    case False
    then have "m = 0" using k by (simp add: m_def)
    then show ?thesis using False by (simp add: allow_def r)
  next
    case True
    then have m1: "1 \<le> m" by (simp add: m_def)
    have b: "\<bar>m - 1\<bar> \<le> 2 ^ 53" "\<bar>(m - 1) * 1000\<bar> \<le> 2 ^ 53" "0 \<le> (m - 1) * 1000"
      using m1 mb by simp_all
    have c1: "fl (of_int m - 1) = of_int (m - 1)" using fl_int [OF fl b(1)] by simp
    have c2: "fl (of_int (m - 1) * tokenMultiplier) = of_int ((m - 1) * 1000)"
      using fl_int [OF fl b(2)] by (simp add: tokenMultiplier_def)
    have c3: "float_trunc (of_int ((m - 1) * 1000)) = (m - 1) * 1000"
      using b(3) by (rule float_trunc_int)
    have "int n - int (Suc k) = m - 1" by (simp add: m_def)
    then have c4: "burst_state n (Suc k) t = push_bit 32 (word_of_int ((m - 1) * 1000)) OR t"
      by (simp only: burst_state_def)
    have "\<not> (of_int m :: rat) < 1" using m1 by simp
    then show ?thesis using True unfolding allow_def Let_def r c1 c2 c3 c4 by simp
  qed
qed

lemma burst_from:
  assumes fl: "float_rounding fl" and n: "n * 1000 < 2 ^ 32" and t: "t < 2 ^ 32"
  shows "d = n - k \<Longrightarrow> k \<le> n \<Longrightarrow> rl_capacity rl = of_nat n \<Longrightarrow>
         current_bucket fl rl ip t = burst_state n k t \<Longrightarrow>
         fst (Allow_seq fl rl ip (replicate (Suc d) (t, t))) = replicate d True @ [False]"
proof (induction d arbitrary: k rl)
  case 0
  then have "k = n" by simp
  then have "\<not> fst (Allow fl rl ip t t)"
    using allow_burst [OF fl n t, of n "rl_rate rl"] "0.prems"(3,4) Allow_fields(4) [of fl rl ip t t]
    by simp
  then show ?case by (simp add: split_beta)
next
  case (Suc d)
  then have kn: "k < n" by simp
  define rl' where "rl' = snd (Allow fl rl ip t t)"
  have al: "allow fl (rl_rate rl) (rl_capacity rl) t (current_bucket fl rl ip t) = (True, burst_state n (Suc k) t)"
    using allow_burst [OF fl n t Suc.prems(2), of "rl_rate rl"] kn Suc.prems(3,4) by simp
  have f: "fst (Allow fl rl ip t t)" using Allow_fields(4) [of fl rl ip t t] al by simp
  have "rl_visitors rl' ip = Some (burst_state n (Suc k) t)"
    using Allow_fields(3) [of fl rl ip t t] al by (simp add: rl'_def)
  then have cur: "current_bucket fl rl' ip t = burst_state n (Suc k) t"
    by (simp add: current_bucket_def)
  have cap: "rl_capacity rl' = of_nat n" using Suc.prems(3) by (simp add: rl'_def Allow_fields)
  have d: "d = n - Suc k" using Suc.prems(1) by simp
  have ih: "fst (Allow_seq fl rl' ip (replicate (Suc d) (t, t))) = replicate d True @ [False]"
    using Suc.IH [OF d _ cap cur] kn by simp
  have "replicate (Suc (Suc d)) (t, t) = (t, t) # replicate (Suc d) (t, t)" by simp
  then have "fst (Allow_seq fl rl ip (replicate (Suc (Suc d)) (t, t)))
           = fst (Allow fl rl ip t t) # fst (Allow_seq fl rl' ip (replicate (Suc d) (t, t)))"
    by (simp only: Allow_seq_Cons rl'_def)
  then show ?case using f ih by simp
qed

text \<open>
  Claim C5. Take a limiter whose capacity is a whole number \<open>n\<close> of tokens that fits the
  32-bit token field, a key with no bucket yet, and clock readings that fit the 32-bit
  time field. After every sequence of \<open>Allow\<close> calls for the key, whatever the times of
  the calls, the token count of its bucket lies between 0 and the capacity. Every
  successful \<open>allow\<close>, from any state, leaves a token count that is not negative before
  it is packed, and at most the capacity. On the fresh key, \<open>n\<close> calls in one second
  all succeed and the next call in that second is refused. (\<open>allow\<close> packs the clock
  reading unmasked beside the tokens, hence the bound on the readings.)
\<close>

theorem token_bucket_bounds:
  fixes n :: nat
  assumes "float_rounding fl" and "n * 1000 < 2 ^ 32"
    and "rl_capacity rl = of_nat n" and "rl_visitors rl ip = None"
    and "\<forall>(tc, now) \<in> set ts. now < 2 ^ 32" and "t < 2 ^ 32"
  shows "(\<forall>s. rl_visitors (snd (Allow_seq fl rl ip ts)) ip = Some s \<longrightarrow>
              0 \<le> tokens_of fl s \<and> tokens_of fl s \<le> rl_capacity rl) \<and>
         (\<forall>now s s'. now < 2 ^ 32 \<longrightarrow>
              allow fl (rl_rate rl) (rl_capacity rl) now s = (True, s') \<longrightarrow>
              0 \<le> fl (refill fl (rl_rate rl) (rl_capacity rl) now s - 1) \<and>
              0 \<le> tokens_of fl s' \<and> tokens_of fl s' \<le> rl_capacity rl) \<and>
         fst (Allow_seq fl rl ip (replicate (Suc n) (t, t))) = replicate n True @ [False]"
proof (intro conjI allI impI)
  have ok0: "limiter_ok n rl ip" using assms(3,4) by (simp add: limiter_ok_def)
  have inv: "limiter_ok n (snd (Allow_seq fl rl ip ts)) ip"
    using Allow_seq_limiter_ok [OF assms(1,2) ok0 assms(5)] .
  {
    fix s assume "rl_visitors (snd (Allow_seq fl rl ip ts)) ip = Some s"
    then have "bucket_ok n s" using inv by (simp add: limiter_ok_def)
    from tokens_of_bounds [OF assms(1,2) this]
    show "0 \<le> tokens_of fl s" "tokens_of fl s \<le> rl_capacity rl"
      by (simp_all add: assms(3))
  }
  {
    fix now s s'
    assume now: "now < (2 ^ 32 :: 64 word)"
      and al: "allow fl (rl_rate rl) (rl_capacity rl) now s = (True, s')"
    from al have al': "allow fl (rl_rate rl) (of_nat n) now s = (True, s')" by (simp add: assms(3))
    show "0 \<le> fl (refill fl (rl_rate rl) (rl_capacity rl) now s - 1)"
      using allow_consumed(1) [OF assms(1,2) now al'] by (simp add: assms(3))
    have "bucket_ok n s'"
      using allow_consumed(2) [OF assms(1,2) now al'] by (simp add: bucket_ok_def)
    from tokens_of_bounds [OF assms(1,2) this]
    show "0 \<le> tokens_of fl s'" "tokens_of fl s' \<le> rl_capacity rl"
      by (simp_all add: assms(3))
  }
  have "current_bucket fl rl ip t = burst_state n 0 t"
    using new_bucket [OF assms(1,2), of t] ucast_time [OF assms(6)]
    by (simp add: current_bucket_def assms(3,4) burst_state_def)
  from burst_from [OF assms(1,2,6) _ _ assms(3) this, of n]
  show "fst (Allow_seq fl rl ip (replicate (Suc n) (t, t))) = replicate n True @ [False]"
    by simp
qed

theorem token_bucket_bounds_witness:
  "float_rounding (\<lambda>x. x) \<and> (5::nat) * 1000 < 2 ^ 32 \<and>
   rl_capacity (NewRateLimiter (\<lambda>x. x) 5) = of_nat 5 \<and>
   rl_visitors (NewRateLimiter (\<lambda>x. x) 5) ''10.0.0.7'' = None \<and>
   (100 :: 64 word) < 2 ^ 32 \<and>
   fst (Allow_seq (\<lambda>x. x) (NewRateLimiter (\<lambda>x. x) 5) ''10.0.0.7'' (replicate (Suc 5) (100, 100)))
     = replicate 5 True @ [False]"
proof -
  have h1: "float_rounding (\<lambda>x. x)" by (simp add: float_rounding_def)
  have h2: "(5::nat) * 1000 < 2 ^ 32" by simp
  have h3: "rl_capacity (NewRateLimiter (\<lambda>x. x) 5) = of_nat 5" by (simp add: NewRateLimiter_def)
  have h4: "rl_visitors (NewRateLimiter (\<lambda>x. x) 5) ''10.0.0.7'' = None" by (simp add: NewRateLimiter_def)
  have h5: "\<forall>(tc, now) \<in> set [(100, 100), (100, 101), (130, 130 :: 64 word)]. now < 2 ^ 32" by simp
  have h6: "(100 :: 64 word) < 2 ^ 32" by simp
  from token_bucket_bounds [OF h1 h2 h3 h4 h5 h6] h1 h2 h3 h4 h6
  show ?thesis by blast
qed

subsection \<open>Batch send\<close>

lemma send_each_Cons:
  "fst (send_each wr c (p # ps)) = fst (SendTo wr c p) # fst (send_each wr (snd (SendTo wr c p)) ps)"
  "snd (send_each wr c (p # ps)) = snd (send_each wr (snd (SendTo wr c p)) ps)"
  by (simp_all add: split_beta)

lemma SendToBatch_loop_prefix:
  "- 1 \<notin> set (fst (send_each wr c pre)) \<Longrightarrow>
   SendToBatch_loop wr c (pre @ rest) acc
     = SendToBatch_loop wr (snd (send_each wr c pre)) rest (acc + sum_list (fst (send_each wr c pre)))"
proof (induction pre arbitrary: c acc)
  case Nil
  then show ?case by simp
next
  case (Cons p pre)
  have ok: "fst (SendTo wr c p) \<noteq> - 1" and rest: "- 1 \<notin> set (fst (send_each wr (snd (SendTo wr c p)) pre))"
    using Cons.prems by (auto simp: split_beta)
  show ?case
    using ok Cons.IH [OF rest] by (simp add: split_beta add.assoc)
qed

text \<open>
  Claim C9. When \<open>SendTo\<close> succeeds on every packet of a batch, in order, \<open>SendToBatch\<close>
  returns the sum of the byte counts and leaves the table as the sends left it. When
  the first packet on which \<open>SendTo\<close> returns \<open>-1\<close> comes after the packets \<open>pre\<close>, the
  batch returns \<open>-1\<close> and leaves the table as it is after sending \<open>pre\<close> and attempting
  that packet: the earlier sends are kept and no later packet is sent.
\<close>

theorem SendToBatch_total_or_abort:
  "(- 1 \<notin> set (fst (send_each wr c ps)) \<longrightarrow>
      SendToBatch wr c ps = (sum_list (fst (send_each wr c ps)), snd (send_each wr c ps))) \<and>
   (\<forall>pre p post.
      ps = pre @ p # post \<longrightarrow> - 1 \<notin> set (fst (send_each wr c pre)) \<longrightarrow>
      fst (SendTo wr (snd (send_each wr c pre)) p) = - 1 \<longrightarrow>
      SendToBatch wr c ps = (- 1, snd (SendTo wr (snd (send_each wr c pre)) p)))"
proof (intro conjI allI impI)
  assume "- 1 \<notin> set (fst (send_each wr c ps))"
  from SendToBatch_loop_prefix [OF this, of "[]" 0]
  show "SendToBatch wr c ps = (sum_list (fst (send_each wr c ps)), snd (send_each wr c ps))"
    by (simp add: SendToBatch_def)
next
  fix pre p post
  assume ps: "ps = pre @ p # post" and pre: "- 1 \<notin> set (fst (send_each wr c pre))"
    and p: "fst (SendTo wr (snd (send_each wr c pre)) p) = - 1"
  from SendToBatch_loop_prefix [OF pre, of "p # post" 0] p
  show "SendToBatch wr c ps = (- 1, snd (SendTo wr (snd (send_each wr c pre)) p))"
    by (simp add: SendToBatch_def ps split_beta)
qed

theorem SendToBatch_total_or_abort_witness:
  "SendToBatch log_writer ((\<lambda>_. None)(1 := Some [])) [pk 1 [1, 2], pk 1 [7]]
     = (3, snd (send_each log_writer ((\<lambda>_. None)(1 := Some [])) [pk 1 [1, 2], pk 1 [7]])) \<and>
   snd (send_each log_writer ((\<lambda>_. None)(1 := Some [])) [pk 1 [1, 2], pk 1 [7]]) 1 = Some [[1, 2], [7]] \<and>
   fst (SendToBatch log_writer ((\<lambda>_. None)(1 := Some [])) [pk 1 [1, 2], pk 1 [], pk 1 [3]]) = - 1 \<and>
   snd (SendToBatch log_writer ((\<lambda>_. None)(1 := Some [])) [pk 1 [1, 2], pk 1 [], pk 1 [3]]) 1 = Some [[1, 2]]"
proof -
  let ?c = "(\<lambda>_. None)(1 := Some []) :: bytes list connections"
  have a: "fst (send_each log_writer ?c [pk 1 [1, 2], pk 1 [7]]) = [2, 1]"
    by (simp add: SendTo_def log_writer_def pk_def)
  have a': "snd (send_each log_writer ?c [pk 1 [1, 2], pk 1 [7]]) 1 = Some [[1, 2], [7]]"
    by (simp add: SendTo_def log_writer_def pk_def)
  have b: "- 1 \<notin> set (fst (send_each log_writer ?c [pk 1 [1, 2]]))"
    by (simp add: SendTo_def log_writer_def pk_def)
  have c: "fst (SendTo log_writer (snd (send_each log_writer ?c [pk 1 [1, 2]])) (pk 1 [])) = - 1"
    by (simp add: SendTo_def log_writer_def pk_def)
  have d: "snd (SendTo log_writer (snd (send_each log_writer ?c [pk 1 [1, 2]])) (pk 1 [])) 1 = Some [[1, 2]]"
    by (simp add: SendTo_def log_writer_def pk_def)
  have e: "[pk 1 [1, 2], pk 1 [], pk 1 [3]] = [pk 1 [1, 2]] @ pk 1 [] # [pk 1 [3]]" by simp
  note t1 = SendToBatch_total_or_abort [of log_writer ?c "[pk 1 [1, 2], pk 1 [7]]", THEN conjunct1, rule_format]
  note t2 = SendToBatch_total_or_abort [of log_writer ?c "[pk 1 [1, 2], pk 1 [], pk 1 [3]]",
      THEN conjunct2, rule_format, OF e b c]
  have "SendToBatch log_writer ?c [pk 1 [1, 2], pk 1 [7]]
     = (3, snd (send_each log_writer ?c [pk 1 [1, 2], pk 1 [7]]))"
    using t1 a by simp
  moreover have "fst (SendToBatch log_writer ?c [pk 1 [1, 2], pk 1 [], pk 1 [3]]) = - 1"
    using t2 by simp
  moreover have "snd (SendToBatch log_writer ?c [pk 1 [1, 2], pk 1 [], pk 1 [3]]) 1 = Some [[1, 2]]"
    using t2 d by simp
  ultimately show ?thesis using a' by simp
qed

subsection \<open>Remote console commands\<close>

lemma rcon_array_eq:
  "rcon_array e cs =
     \<lparr>executing = executing e @ nonempty_strings cs,
      cbuf = cbuf e @ map (\<lambda>s. CString (s @ [CHR 0x0A])) (nonempty_strings cs)\<rparr>"
  by (induction e cs rule: rcon_array.induct) (simp_all add: ExecuteCommand_def)

text \<open>
  Claim C10. On a POST whose decoded \<open>command\<close> is a non-empty array the handler answers
  204 and calls \<open>ExecuteCommand\<close> on exactly the non-empty strings of the array, in
  order, whatever else the array holds, also when it holds no such string; the engine
  reads of each the text with its newline, up to a first NUL byte if the string has
  one. The answer is 400 exactly when the body does not decode, the command is absent
  or null, is the empty string, is the empty array, or is a boolean, a number or an
  object.
\<close>

theorem rconHandler_array:
  "rconHandler ''POST'' (Decoded (JArray (c # cs))) e
     = (204, \<lparr>executing = executing e @ nonempty_strings (c # cs),
              cbuf = cbuf e @ map (\<lambda>s. CString (s @ [CHR 0x0A])) (nonempty_strings (c # cs))\<rparr>) \<and>
   (fst (rconHandler ''POST'' body e) = 400 \<longleftrightarrow>
      body = DecodeError \<or> body = Decoded JNil \<or> body = Decoded (JString []) \<or>
      body = Decoded (JArray []) \<or> (\<exists>b. body = Decoded (JBool b)) \<or>
      (\<exists>x. body = Decoded (JNumber x)) \<or> (\<exists>m. body = Decoded (JObject m)))"
proof
  show "rconHandler ''POST'' (Decoded (JArray (c # cs))) e
     = (204, \<lparr>executing = executing e @ nonempty_strings (c # cs),
              cbuf = cbuf e @ map (\<lambda>s. CString (s @ [CHR 0x0A])) (nonempty_strings (c # cs))\<rparr>)"
    by (simp only: rconHandler_def rcon_array_eq) simp
  show "fst (rconHandler ''POST'' body e) = 400 \<longleftrightarrow>
      body = DecodeError \<or> body = Decoded JNil \<or> body = Decoded (JString []) \<or>
      body = Decoded (JArray []) \<or> (\<exists>b. body = Decoded (JBool b)) \<or>
      (\<exists>x. body = Decoded (JNumber x)) \<or> (\<exists>m. body = Decoded (JObject m))"
  proof (cases body)
    case DecodeError
    then show ?thesis by (simp add: rconHandler_def)
  next
    case (Decoded v)
    then show ?thesis by (cases v) (simp_all add: rconHandler_def)
  qed
qed

subsection \<open>Constant-time comparison\<close>

lemma byte_xor_zero: "(x XOR y = 0) = (x = y)" for x y :: "8 word"
  by (auto simp: bit_eq_iff bit_simps)

lemma byte_or_zero: "(x OR y = 0) = (x = 0 \<and> y = 0)" for x y :: "8 word"
  by (auto simp: bit_eq_iff bit_simps)

lemma ct_loop_steps: "length x = length y \<Longrightarrow> snd (ct_loop x y v k) = k + length x"
  by (induction x y v k rule: ct_loop.induct) simp_all

lemma ct_loop_zero: "length x = length y \<Longrightarrow> (fst (ct_loop x y v k) = 0) = (v = 0 \<and> x = y)"
  by (induction x y v k rule: ct_loop.induct) (auto simp: byte_xor_zero byte_or_zero)

lemma ConstantTimeCompare_result: "(fst (ConstantTimeCompare x y) = 1) = (x = y)"
  using ct_loop_zero [of x y 0 0] by (auto simp: ConstantTimeCompare_def split_beta)

lemma ConstantTimeCompare_steps:
  "snd (ConstantTimeCompare x y) = (if length x = length y then length x else 0)"
  using ct_loop_steps [of x y 0 0] by (simp add: ConstantTimeCompare_def split_beta)

lemma checkCredentials_trace:
  "snd (checkCredentials H st u h) =
     [Compared (length u) (length (adminUsername st))
        (if length u = length (adminUsername st) then length u else 0),
      Hashed (length (adminPassword st @ passwordSalt st)),
      Compared (length h) (length (H (adminPassword st @ passwordSalt st)))
        (if length h = length (H (adminPassword st @ passwordSalt st)) then length h else 0)]"
  by (simp add: checkCredentials_def computePasswordHash_def split_beta ConstantTimeCompare_steps)

text \<open>
  Claim C8. \<open>checkCredentials\<close> always runs both constant-time comparisons, the hash
  between them, whatever the first comparison answers. Two calls whose user names
  have the same length and whose password hashes have the same length perform the
  same sequence of operations with the same numbers of byte steps, whichever of the
  two checks fails; and the answer is true exactly when both fields match.
\<close>

theorem checkCredentials_constant_shape:
  assumes "length u1 = length u2" and "length h1 = length h2"
  shows "snd (checkCredentials H st u1 h1) = snd (checkCredentials H st u2 h2) \<and>
         (\<exists>k1 n k2. snd (checkCredentials H st u1 h1) =
            [Compared (length u1) (length (adminUsername st)) k1, Hashed n,
             Compared (length h1) (length (H (adminPassword st @ passwordSalt st))) k2]) \<and>
         (fst (checkCredentials H st u1 h1) \<longleftrightarrow>
            u1 = adminUsername st \<and> h1 = H (adminPassword st @ passwordSalt st))"
proof (intro conjI)
  show "snd (checkCredentials H st u1 h1) = snd (checkCredentials H st u2 h2)"
    using assms by (simp only: checkCredentials_trace)
  show "\<exists>k1 n k2. snd (checkCredentials H st u1 h1) =
            [Compared (length u1) (length (adminUsername st)) k1, Hashed n,
             Compared (length h1) (length (H (adminPassword st @ passwordSalt st))) k2]"
    by (simp only: checkCredentials_trace) blast
  show "fst (checkCredentials H st u1 h1) \<longleftrightarrow>
            u1 = adminUsername st \<and> h1 = H (adminPassword st @ passwordSalt st)"
    by (simp add: checkCredentials_def computePasswordHash_def split_beta ConstantTimeCompare_result)
qed

theorem checkCredentials_constant_shape_witness:
  "length [9, 9 :: 8 word] = length [1, 2 :: 8 word] \<and> length [3, 4 :: 8 word] = length [0, 0 :: 8 word] \<and>
   snd (checkCredentials (\<lambda>x. x) example_state [9, 9] [3, 4])
     = snd (checkCredentials (\<lambda>x. x) example_state [1, 2] [0, 0]) \<and>
   \<not> fst (checkCredentials (\<lambda>x. x) example_state [9, 9] [3, 4])"
  using checkCredentials_constant_shape [of "[9, 9]" "[1, 2]" "[3, 4]" "[0, 0]" "\<lambda>x. x" example_state]
  by (simp add: example_state_def)

subsection \<open>Disabled admin panel\<close>

text \<open>
  Claim C1 asks for status 503 on every privileged endpoint while no operator
  password is configured. The start-up then leaves both rate limiters nil, and the
  router runs the limiter before the handler that holds the 503 guard: a POST to
  \<open>/v1/auth\<close> and every request to \<open>/v1/rcon\<close> end in a nil dereference, not in a
  status.
\<close>

theorem ServeHTTP_disabled_limiter_panics:
  "fst (ServeHTTP fl (init_admin fl user [] salt) (r\<lparr>URL_Path := ''/v1/auth'', Method := ''POST''\<rparr>) tc now)
     = Panicked NilDereference \<and>
   fst (ServeHTTP fl (init_admin fl user [] salt) (r\<lparr>URL_Path := ''/v1/rcon''\<rparr>) tc now)
     = Panicked NilDereference"
  by (simp add: ServeHTTP_def init_admin_def Middleware_def Let_def)

text \<open>
  The other privileged endpoints hold their guard themselves: with no password
  configured, the log stream, the admin panel and the salt request answer 503.
\<close>

theorem ServeHTTP_disabled_guarded:
  assumes "URL_Path r = ''/websocket/logs'' \<or> URL_Path r = ''/admin'' \<or> URL_Path r = ''/admin/'' \<or>
           (URL_Path r = ''/v1/auth'' \<and> Method r = ''GET'')"
  shows "fst (ServeHTTP fl (init_admin fl user [] salt) r tc now) = Status 503"
  using assms
  by (auto simp: ServeHTTP_def init_admin_def Let_def admin_disabled_def saltHandler_def
      adminHandler_def logsWebSocketHandler_def)

theorem ServeHTTP_disabled_guarded_witness:
  "URL_Path admin_request = ''/admin'' \<and>
   fst (ServeHTTP (\<lambda>x. x) (init_admin (\<lambda>x. x) [] [] []) admin_request 0 0) = Status 503"
proof -
  have h: "URL_Path admin_request = ''/websocket/logs'' \<or> URL_Path admin_request = ''/admin'' \<or>
           URL_Path admin_request = ''/admin/'' \<or>
           (URL_Path admin_request = ''/v1/auth'' \<and> Method admin_request = ''GET'')"
    by (simp add: admin_request_def)
  from ServeHTTP_disabled_guarded [OF h, of "\<lambda>x. x" "[]" "[]" 0 0]
  show ?thesis by (simp add: admin_request_def)
qed

subsection \<open>Admission and teardown of a signaling connection\<close>

lemma websocket_open_ok:
  assumes "env_ok env"
  shows "websocket_open d env st =
     (let index = fst (fst (TryGet d (pool st)));
          s = \<lparr>sess_ip = (index, snd (rand_ip env)),
               sess_deferred = [DeferCloseWriteChannel, DeferCloseReadChannel, DeferTryPut index,
                                DeferClosePeerConnection, DeferCloseWebsocket]\<rparr>
      in (Some s, [], st\<lparr>pool := snd (TryGet d (pool st)), peers := peers st @ [s]\<rparr>))"
  using assms by (simp add: websocket_open_def env_ok_def Let_def split_beta)

lemma pool_inv_init: "pool_inv 0 sfu_init"
  by (simp add: pool_inv_def sfu_init_def NewBytesPool_def)

lemma pool_inv_open:
  assumes "pool_inv k st" "k < 256" "env_ok env"
  shows "pool_inv (Suc k) (snd (snd (websocket_open d env st)))"
proof -
  have av: "available (pool st) = of_nat k # map of_nat [Suc k ..< 256]"
    using assms(1,2) by (simp add: pool_inv_def upt_conv_Cons)
  have ps: "map (\<lambda>s. fst (sess_ip s)) (peers st) = map of_nat [0 ..< k]"
    using assms(1) by (simp add: pool_inv_def)
  show ?thesis
    unfolding pool_inv_def
    by (simp add: websocket_open_ok [OF assms(3)] Let_def TryGet_def av ps)
qed

lemma pool_inv_open_all:
  "pool_inv k st \<Longrightarrow> k + length envs \<le> 256 \<Longrightarrow> \<forall>e \<in> set envs. env_ok e \<Longrightarrow>
   pool_inv (k + length envs) (open_all d envs st)"
proof (induction envs arbitrary: k st)
  case Nil
  then show ?case by simp
next
  case (Cons e envs)
  have "pool_inv (Suc k) (snd (snd (websocket_open d e st)))"
    using pool_inv_open [of k st e d] Cons.prems by simp
  from Cons.IH [OF this] Cons.prems show ?case by simp
qed

text \<open>
  Claim C2 asks that a connection arriving while the pool is exhausted be refused.
  After 256 connections were admitted and stay open the pool is empty, and the next
  connection is admitted all the same, under the byte that came with the failed
  acquire: an index that one of the open sessions holds.
\<close>

theorem websocket_open_exhausted_admits:
  assumes "length envs = 256" and "\<forall>e \<in> set envs. env_ok e" and "env_ok env"
  shows "available (pool (open_all d envs sfu_init)) = [] \<and>
         (\<exists>s. fst (websocket_open d env (open_all d envs sfu_init)) = Some s \<and>
              fst (sess_ip s) = d \<and>
              d \<in> set (map (\<lambda>s. fst (sess_ip s)) (peers (open_all d envs sfu_init))))"
proof -
  let ?st = "open_all d envs sfu_init"
  have inv: "pool_inv 256 ?st"
    using pool_inv_open_all [OF pool_inv_init, of envs d] assms(1,2) by simp
  then have av: "available (pool ?st) = []" by (simp add: pool_inv_def)
  have "unat d < 256" using unsigned_less [of d] by simp
  moreover have "d = of_nat (unat d)" by simp
  ultimately have "d \<in> of_nat ` {0 ..< 256}" by (intro image_eqI [of d of_nat "unat d"]) simp_all
  then have "d \<in> set (map of_nat [0 ..< 256])" by simp
  then have live: "d \<in> set (map (\<lambda>s. fst (sess_ip s)) (peers ?st))"
    using inv by (simp add: pool_inv_def)
  show ?thesis
    using av live by (simp add: websocket_open_ok [OF assms(3)] Let_def TryGet_def)
qed

theorem websocket_open_exhausted_admits_witness:
  "length (replicate 256 all_ok) = 256 \<and> env_ok all_ok \<and>
   available (pool (open_all 0 (replicate 256 all_ok) sfu_init)) = [] \<and>
   (\<exists>s. fst (websocket_open 0 all_ok (open_all 0 (replicate 256 all_ok) sfu_init)) = Some s \<and>
        fst (sess_ip s) = 0 \<and>
        0 \<in> set (map (\<lambda>s. fst (sess_ip s)) (peers (open_all 0 (replicate 256 all_ok) sfu_init))))"
proof -
  have h1: "length (replicate 256 all_ok) = 256" by simp
  have h3: "env_ok all_ok" by (simp add: env_ok_def all_ok_def)
  then have h2: "\<forall>e \<in> set (replicate 256 all_ok). env_ok e" by simp
  from websocket_open_exhausted_admits [OF h1 h2 h3, of 0] h1 h3 show ?thesis by blast
qed

lemma session_step_before_return:
  assumes "a \<noteq> HandlerReturns" "\<not> sr_returned r"
  shows "\<not> sr_returned (session_step s a r) \<and> sr_sfu (session_step s a r) = sr_sfu r \<and>
         (\<forall>e \<in> set (sr_events (session_step s a r)).
            e \<in> set (sr_events r) \<or> e = FailedClose \<or> e = PushPacket (sess_ip s))"
  using assms by (cases a) (auto split: read_loop.splits)

lemma session_run_before_return:
  "HandlerReturns \<notin> set pre \<Longrightarrow> \<not> sr_returned r \<Longrightarrow>
   \<not> sr_returned (session_run s pre r) \<and> sr_sfu (session_run s pre r) = sr_sfu r \<and>
   (\<forall>e \<in> set (sr_events (session_run s pre r)).
      e \<in> set (sr_events r) \<or> e = FailedClose \<or> e = PushPacket (sess_ip s))"
proof (induction pre arbitrary: r)
  case Nil
  then show ?case by simp
next
  case (Cons a pre)
  have a: "a \<noteq> HandlerReturns" and pre: "HandlerReturns \<notin> set pre" using Cons.prems(1) by auto
  note st = session_step_before_return [OF a Cons.prems(2), of s]
  from Cons.IH [OF pre, of "session_step s a r"] st show ?case by auto
qed

lemma admitted_deferred:
  assumes "fst (websocket_open d env st) = Some s"
  shows "sess_deferred s = [DeferCloseWriteChannel, DeferCloseReadChannel, DeferTryPut (fst (sess_ip s)),
                            DeferClosePeerConnection, DeferCloseWebsocket]"
  using assms by (auto simp: websocket_open_def Let_def split_beta split: if_splits)

lemma websocket_close_admitted:
  assumes "fst (websocket_open d env st) = Some s"
  shows "websocket_close rc s st' =
           ([CloseWriteChannel] @ (if rc then [CloseReadChannel] else []) @
            [PoolTryPut (fst (sess_ip s)), ClosePeerConnection, CloseWebsocket],
            st'\<lparr>pool := TryPut (fst (sess_ip s)) (pool st')\<rparr>)"
  by (simp add: websocket_close_def admitted_deferred [OF assms] split_beta)

lemma first_open:
  "websocket_open 0 all_ok sfu_init =
     (Some first_session, [],
      \<lparr>pool = \<lparr>available = map of_nat [1 ..< 256], pool_size = 256\<rparr>, peers = [first_session]\<rparr>)"
proof -
  have ok: "env_ok all_ok" by (simp add: env_ok_def all_ok_def)
  have "[0 ..< 256] = 0 # [1 ..< 256]" by (simp add: upt_conv_Cons)
  then have "websocket_open 0 all_ok sfu_init =
     (Some \<lparr>sess_ip = (0, snd (rand_ip all_ok)), sess_deferred = sess_deferred first_session\<rparr>, [],
      \<lparr>pool = \<lparr>available = map of_nat [1 ..< 256], pool_size = 256\<rparr>,
       peers = [\<lparr>sess_ip = (0, snd (rand_ip all_ok)), sess_deferred = sess_deferred first_session\<rparr>]\<rparr>)"
    by (simp add: websocket_open_ok [OF ok] Let_def TryGet_def sfu_init_def NewBytesPool_def
        first_session_def)
  then show ?thesis by (simp add: all_ok_def first_session_def)
qed

text \<open>
  Claim C3, as amended. Take an admitted session, any state \<open>st'\<close> of the pool and the
  list when its run begins, and any steps \<open>pre\<close> of its callbacks and read loop before
  the handler returns. Up to the return the session closes no data channel and puts
  no index back; at most the failure callback has closed the peer connection. The
  return then closes the write channel, closes the read channel if one was created,
  puts the session's index back into the pool (where it becomes available when the
  pool has room), and after that makes the handler's own close of the peer connection
  and of the signaling connection. The list of sessions stays as it is. The return
  does not wait for the read loop: a packet the loop holds at that moment is pushed
  under the session's address afterwards.
\<close>

theorem websocket_close_order:
  assumes "fst (websocket_open d env st) = Some s" and "HandlerReturns \<notin> set pre"
  shows "let r0 = session_run s pre (session_start st');
             r = session_step s HandlerReturns r0
         in (\<forall>e \<in> set (sr_events r0). e = FailedClose \<or> e = PushPacket (sess_ip s)) \<and>
            sr_events r = sr_events r0 @
              map Deferred ([CloseWriteChannel] @ (if sr_read_channel r0 then [CloseReadChannel] else []) @
                            [PoolTryPut (fst (sess_ip s)), ClosePeerConnection, CloseWebsocket]) \<and>
            pool (sr_sfu r) = TryPut (fst (sess_ip s)) (pool st') \<and>
            (length (available (pool st')) < pool_size (pool st') \<longrightarrow>
               available (pool (sr_sfu r)) = available (pool st') @ [fst (sess_ip s)]) \<and>
            peers (sr_sfu r) = peers st' \<and>
            (\<forall>dat. sr_loop r0 = Holding dat \<longrightarrow>
               sr_events (session_step s PushesPacket r) = sr_events r @ [PushPacket (sess_ip s)])"
proof -
  define r0 where "r0 = session_run s pre (session_start st')"
  define r where "r = session_step s HandlerReturns r0"
  have start: "\<not> sr_returned (session_start st')" "sr_events (session_start st') = []"
    "sr_sfu (session_start st') = st'" by (simp_all add: session_start_def)
  from session_run_before_return [OF assms(2) start(1), of s]
  have nr: "\<not> sr_returned r0" and sfu: "sr_sfu r0 = st'"
    and ev: "\<forall>e \<in> set (sr_events r0). e = FailedClose \<or> e = PushPacket (sess_ip s)"
    by (simp_all add: r0_def start)
  have r: "r = r0\<lparr>sr_sfu := st'\<lparr>pool := TryPut (fst (sess_ip s)) (pool st')\<rparr>,
                    sr_events := sr_events r0 @
                      map Deferred ([CloseWriteChannel] @ (if sr_read_channel r0 then [CloseReadChannel] else []) @
                                    [PoolTryPut (fst (sess_ip s)), ClosePeerConnection, CloseWebsocket]),
                    sr_returned := True\<rparr>"
    using nr sfu by (simp add: r_def websocket_close_admitted [OF assms(1)])
  have main: "(\<forall>e \<in> set (sr_events r0). e = FailedClose \<or> e = PushPacket (sess_ip s)) \<and>
        sr_events r = sr_events r0 @
          map Deferred ([CloseWriteChannel] @ (if sr_read_channel r0 then [CloseReadChannel] else []) @
                        [PoolTryPut (fst (sess_ip s)), ClosePeerConnection, CloseWebsocket]) \<and>
        pool (sr_sfu r) = TryPut (fst (sess_ip s)) (pool st') \<and>
        (length (available (pool st')) < pool_size (pool st') \<longrightarrow>
           available (pool (sr_sfu r)) = available (pool st') @ [fst (sess_ip s)]) \<and>
        peers (sr_sfu r) = peers st' \<and>
        (\<forall>dat. sr_loop r0 = Holding dat \<longrightarrow>
           sr_events (session_step s PushesPacket r) = sr_events r @ [PushPacket (sess_ip s)])"
    using ev by (simp add: r TryPut_def)
  show ?thesis unfolding Let_def r0_def [symmetric] r_def [symmetric] by (rule main)
qed

theorem websocket_close_order_witness:
  "fst (websocket_open 0 all_ok sfu_init) = Some first_session \<and>
   sr_events (session_step first_session HandlerReturns
       (session_run first_session [WriteChannelOpens, ReadChannelOpens, ReadReturns [1], ConnectionFails]
          first_started))
     = [FailedClose, Deferred CloseWriteChannel, Deferred CloseReadChannel, Deferred (PoolTryPut 0),
        Deferred ClosePeerConnection, Deferred CloseWebsocket] \<and>
   pool (sr_sfu (session_step first_session HandlerReturns
       (session_run first_session [WriteChannelOpens, ReadChannelOpens, ReadReturns [1], ConnectionFails]
          first_started)))
     = TryPut 0 (pool (snd (snd (websocket_open 0 all_ok sfu_init))))"
proof -
  let ?pre = "[WriteChannelOpens, ReadChannelOpens, ReadReturns [1], ConnectionFails]"
  have h1: "fst (websocket_open 0 all_ok sfu_init) = Some first_session"
    by (simp add: first_open)
  have h2: "HandlerReturns \<notin> set ?pre" by simp
  have e0: "sr_events (session_run first_session ?pre first_started) = [FailedClose]"
    and rc: "sr_read_channel (session_run first_session ?pre first_started)"
    by (simp_all add: first_started_def session_start_def)
  have i: "fst (sess_ip first_session) = 0" by (simp add: first_session_def)
  from websocket_close_order [OF h1 h2, of "snd (snd (websocket_open 0 all_ok sfu_init))"]
  show ?thesis using h1 e0 rc i by (simp add: Let_def first_started_def)
qed

text \<open>
  Claim C3 as stated fails in both parts. In the run \<open>late_run\<close> of the first session the
  index is put back before the peer connection is closed, and the packet that the
  read loop had read before the return is pushed under the index after it was put
  back, while the index lies in the pool.
\<close>

theorem websocket_close_order_counterexample:
  "\<not> put_back_last (sr_events late_run) \<and> \<not> no_late_packet (sr_events late_run) \<and>
   sr_events late_run =
     [Deferred CloseWriteChannel, Deferred CloseReadChannel, Deferred (PoolTryPut 0),
      Deferred ClosePeerConnection, Deferred CloseWebsocket, PushPacket (0, 7, 7, 7)] \<and>
   last (available (pool (sr_sfu late_run))) = 0"
proof -
  have h: "fst (websocket_open 0 all_ok sfu_init) = Some first_session"
    by (simp add: first_open)
  have i: "fst (sess_ip first_session) = 0" by (simp add: first_session_def)
  have ev: "sr_events late_run =
     [Deferred CloseWriteChannel, Deferred CloseReadChannel, Deferred (PoolTryPut 0),
      Deferred ClosePeerConnection, Deferred CloseWebsocket, PushPacket (0, 7, 7, 7)]"
    by (simp add: late_run_def first_started_def session_start_def websocket_close_admitted [OF h] i)
       (simp add: first_session_def)
  have "pool (sr_sfu late_run) = TryPut 0 \<lparr>available = map of_nat [1 ..< 256], pool_size = 256\<rparr>"
    by (simp add: late_run_def first_started_def session_start_def websocket_close_admitted [OF h] i
        first_open)
  then have "last (available (pool (sr_sfu late_run))) = 0" by (simp add: TryPut_def)
  then show ?thesis by (simp add: ev put_back_last_def)
qed

subsection \<open>Log fan-out\<close>



lemma source_functions_as_runs:
  "broadcastLog now message st = log_run [RingAdd now message, Offer message] st"
  "Logger_broadcast now message st = log_run [Offer message, RingAdd now message] st"
  "sendHistory c st = log_run [Snapshot c, Copy c] st"
  by (simp_all add: broadcastLog_def Logger_broadcast_def sendHistory_def split: sum.splits)












end
